theory Spec2Isabelle
  imports Main
begin

section \<open>JavaScript strings\<close>

text \<open>
  A string is a list of code units. The development covers the code units 0 to 255
  (ASCII and the Latin-1 supplement), which is what a HOL \<open>char\<close> holds; on that range
  the built-in string functions used by the models are as ECMAScript defines them.
\<close>

definition code :: "char \<Rightarrow> nat" where
  "code c = of_char c"

text \<open>
  White space and line terminators, as \<open>String.prototype.trim\<close> strips them and as the
  regular expression class \<open>\s\<close> matches them: TAB, LF, VT, FF, CR, SP and NBSP.
\<close>

definition is_space :: "char \<Rightarrow> bool" where
  "is_space c = (code c \<in> {9, 10, 11, 12, 13, 32, 160})"

text \<open>The class \<open>\d\<close>: the ASCII digits.\<close>

definition is_digit :: "char \<Rightarrow> bool" where
  "is_digit c = (48 \<le> code c \<and> code c \<le> 57)"

text \<open>The class \<open>[a-z0-9]\<close> of the slug pattern.\<close>

definition is_lower_alnum :: "char \<Rightarrow> bool" where
  "is_lower_alnum c = ((97 \<le> code c \<and> code c \<le> 122) \<or> (48 \<le> code c \<and> code c \<le> 57))"

text \<open>
  \<open>String.prototype.toLowerCase\<close>, one code unit at a time: A to Z, and the upper-case
  letters of the Latin-1 supplement (0xC0 to 0xDE without the multiplication sign 0xD7),
  move up by 32; every other code unit below 256 is its own lower case.
\<close>

definition is_upper :: "char \<Rightarrow> bool" where
  "is_upper c =
     ((65 \<le> code c \<and> code c \<le> 90) \<or> (192 \<le> code c \<and> code c \<le> 222 \<and> code c \<noteq> 215))"

definition lower_char :: "char \<Rightarrow> char" where
  "lower_char c = (if is_upper c then char_of (code c + 32) else c)"

definition toLowerCase :: "string \<Rightarrow> string" where
  "toLowerCase s = map lower_char s"

text \<open>\<open>String.prototype.trim\<close>: white space removed at both ends.\<close>

definition trim :: "string \<Rightarrow> string" where
  "trim s = rev (dropWhile is_space (rev (dropWhile is_space s)))"

section \<open>Event model: slugify\<close>

text \<open>
  \<open>.replace(/[^a-z0-9]+/g, '-')\<close>: the scan goes left to right; where the class
  \<open>[^a-z0-9]\<close> matches, the greedy \<open>+\<close> takes the whole run and one dash is written
  for it; any other code unit is copied.
\<close>

function replace_non_alnum :: "string \<Rightarrow> string" where
  "replace_non_alnum [] = []"
| "replace_non_alnum (c # cs) =
     (if \<not> is_lower_alnum c
      then CHR ''-'' # replace_non_alnum (dropWhile (\<lambda>x. \<not> is_lower_alnum x) cs)
      else c # replace_non_alnum cs)"
  by pat_completeness auto
termination
  by (relation "measure length") (auto simp: length_dropWhile_le less_Suc_eq_le)

definition is_dash :: "char \<Rightarrow> bool" where
  "is_dash c = (c = CHR ''-'')"

text \<open>
  \<open>.replace(/^-+|-+$/g, '')\<close>: at position 0 the first alternative \<open>^-+\<close> removes a
  leading run of dashes (the flag \<open>at_start\<close> says that the scan is at position 0);
  at any position the second alternative \<open>-+$\<close> matches when everything from there to the
  end is dashes, and removes it; any other code unit is copied.
\<close>

function strip_dashes_from :: "bool \<Rightarrow> string \<Rightarrow> string" where
  "strip_dashes_from at_start [] = []"
| "strip_dashes_from at_start (c # cs) =
     (if at_start \<and> is_dash c then strip_dashes_from False (dropWhile is_dash cs)
      else if list_all is_dash (c # cs) then []
      else c # strip_dashes_from False cs)"
  by pat_completeness auto
termination
  by (relation "measure (\<lambda>(b, s). length s)") (auto simp: length_dropWhile_le less_Suc_eq_le)

definition strip_dashes :: "string \<Rightarrow> string" where
  "strip_dashes s = strip_dashes_from True s"

text \<open>\<open>slugify\<close> (event.model.ts, lines 30 to 37); \<open>toString\<close> of a string is the string.\<close>

definition slugify :: "string \<Rightarrow> string" where
  "slugify v = strip_dashes (replace_non_alnum (toLowerCase (trim v)))"

section \<open>Event model: normalizeTime\<close>

text \<open>
  The pattern \<open>/^(\d{1,2})(?::(\d{2}))?\s*(am|pm)?$/i\<close>. Every piece is greedy and no
  piece can be shortened to let a later one match (a digit, a colon or a white space left
  over fits none of the pieces that follow), so the match is found without backtracking:
  one or two digits, then a colon with two digits if present, then the white space, then
  \<open>am\<close> or \<open>pm\<close> if present, and the input must end there. The result holds the three
  capture groups; \<open>None\<close> for a group is JavaScript's \<open>undefined\<close>.
\<close>

text \<open>The alternatives \<open>am\<close> and \<open>pm\<close> under the flag \<open>i\<close>.\<close>

definition is_period :: "char \<Rightarrow> char \<Rightarrow> bool" where
  "is_period a m =
     ((a = CHR ''a'' \<or> a = CHR ''A'' \<or> a = CHR ''p'' \<or> a = CHR ''P'')
      \<and> (m = CHR ''m'' \<or> m = CHR ''M''))"

definition match_minutes :: "string \<Rightarrow> string option \<times> string" where
  "match_minutes r =
     (case r of
        c # a # b # rest \<Rightarrow>
          if c = CHR '':'' \<and> is_digit a \<and> is_digit b then (Some [a, b], rest) else (None, r)
      | _ \<Rightarrow> (None, r))"

definition match_period :: "string \<Rightarrow> string option \<times> string" where
  "match_period r =
     (case r of
        a # m # rest \<Rightarrow> if is_period a m then (Some [a, m], rest) else (None, r)
      | _ \<Rightarrow> (None, r))"

definition timeRegex_match :: "string \<Rightarrow> (string \<times> string option \<times> string option) option" where
  "timeRegex_match s =
     (let g1 = takeWhile is_digit (take 2 s);
          (g2, r2) = match_minutes (drop (length g1) s);
          (g3, r4) = match_period (dropWhile is_space r2)
      in if g1 \<noteq> [] \<and> r4 = [] then Some (g1, g2, g3) else None)"

text \<open>\<open>parseInt(s, 10)\<close> on a string of digits, which is what the pattern captures.\<close>

definition parseInt10 :: "string \<Rightarrow> int" where
  "parseInt10 s = foldl (\<lambda>n c. 10 * n + int (code c - 48)) 0 s"

text \<open>\<open>Number.prototype.toString\<close> on an integer, and \<open>String.prototype.padStart\<close>.\<close>

definition digit_char :: "nat \<Rightarrow> char" where
  "digit_char n = char_of (48 + n)"

fun nat_toString :: "nat \<Rightarrow> string" where
  "nat_toString n =
     (if n < 10 then [digit_char n] else nat_toString (n div 10) @ [digit_char (n mod 10)])"

definition int_toString :: "int \<Rightarrow> string" where
  "int_toString i = (if i < 0 then CHR ''-'' # nat_toString (nat (- i)) else nat_toString (nat i))"

definition padStart :: "nat \<Rightarrow> char \<Rightarrow> string \<Rightarrow> string" where
  "padStart n c s = replicate (n - length s) c @ s"

text \<open>\<open>normalizeTime\<close> (event.model.ts, lines 40 to 71); \<open>None\<close> is \<open>null\<close>.\<close>

definition normalizeTime :: "string \<Rightarrow> string option" where
  "normalizeTime v =
     (let trimmed = toLowerCase (trim v) in
      case timeRegex_match trimmed of
        None \<Rightarrow> None
      | Some (g1, g2, period) \<Rightarrow>
          let hours = parseInt10 g1;
              minutes = (case g2 of Some m \<Rightarrow> parseInt10 m | None \<Rightarrow> 0)
          in if minutes < 0 \<or> minutes > 59 then None
             else (case period of
                     Some p \<Rightarrow>
                       if hours < 1 \<or> hours > 12 then None
                       else let hours' = (if p = ''pm'' \<and> hours \<noteq> 12 then hours + 12
                                          else if p = ''am'' \<and> hours = 12 then 0
                                          else hours)
                            in Some (padStart 2 CHR ''0'' (int_toString hours') @ '':''
                                     @ padStart 2 CHR ''0'' (int_toString minutes))
                   | None \<Rightarrow>
                       if hours < 0 \<or> hours > 23 then None
                       else Some (padStart 2 CHR ''0'' (int_toString hours) @ '':''
                                  @ padStart 2 CHR ''0'' (int_toString minutes))))"

declare nat_toString.simps [simp del]

section \<open>Event model: the document and its pre-save hook\<close>

text \<open>
  The values a document path can hold when the hook reads it: \<open>undefined\<close>, \<open>null\<close>,
  a string, or an array of strings.
\<close>

datatype jsval = Undefined | Null | Str string | Arr "string list"

text \<open>
  An Event document: the paths of \<open>EventAttrs\<close>, and the change tracking the hook reads
  (\<open>isNew\<close> and the paths \<open>isModified\<close> answers for). The field \<open>image\<close> of the source
  is \<open>image_url\<close> here.
\<close>

record event_doc =
  title :: jsval
  slug :: jsval
  description :: jsval
  overview :: jsval
  image_url :: jsval
  venue :: jsval
  location :: jsval
  date :: jsval
  time :: jsval
  mode :: jsval
  audience :: jsval
  agenda :: jsval
  organizer :: jsval
  tags :: jsval
  isNew :: bool
  modifiedPaths :: "string set"

definition isModified :: "event_doc \<Rightarrow> string \<Rightarrow> bool" where
  "isModified d path = (path \<in> modifiedPaths d)"

text \<open>\<open>this[field]\<close>; a path that the schema does not have reads as \<open>undefined\<close>.\<close>

definition get_field :: "event_doc \<Rightarrow> string \<Rightarrow> jsval" where
  "get_field d f =
     (if f = ''title'' then title d
      else if f = ''slug'' then slug d
      else if f = ''description'' then description d
      else if f = ''overview'' then overview d
      else if f = ''image'' then image_url d
      else if f = ''venue'' then venue d
      else if f = ''location'' then location d
      else if f = ''date'' then date d
      else if f = ''time'' then time d
      else if f = ''mode'' then mode d
      else if f = ''audience'' then audience d
      else if f = ''agenda'' then agenda d
      else if f = ''organizer'' then organizer d
      else if f = ''tags'' then tags d
      else Undefined)"

definition requiredStringFields :: "string list" where
  "requiredStringFields =
     [''title'', ''description'', ''overview'', ''image'', ''venue'', ''location'',
      ''date'', ''time'', ''mode'', ''audience'', ''organizer'']"

text \<open>
  The errors the hook passes to \<open>next\<close>. \<open>FieldRequired f\<close> is the error with the message
  \<open>Field "f" is required and cannot be empty.\<close>; the others carry the messages
  \<open>Agenda must contain at least one item.\<close>, \<open>Tags must contain at least one item.\<close>,
  \<open>Invalid date format. Expected a valid date string.\<close> and
  \<open>Invalid time format. Expected a valid time (e.g., "13:30" or "1:30 pm").\<close>
\<close>

datatype event_error =
  FieldRequired string
| AgendaEmpty
| TagsEmpty
| InvalidDateFormat
| InvalidTimeFormat

text \<open>
  The test of the loop, negated: \<open>typeof value === 'string'\<close> and
  \<open>value.trim().length !== 0\<close>.
\<close>

fun nonempty_string :: "jsval \<Rightarrow> bool" where
  "nonempty_string (Str s) = (length (trim s) \<noteq> 0)"
| "nonempty_string _ = False"

text \<open>\<open>Array.isArray(value)\<close> and \<open>value.length !== 0\<close>.\<close>

fun nonempty_array :: "jsval \<Rightarrow> bool" where
  "nonempty_array (Arr xs) = (length xs \<noteq> 0)"
| "nonempty_array _ = False"

text \<open>The loop over \<open>requiredStringFields\<close>: it leaves at the first field that fails.\<close>

fun check_required :: "event_doc \<Rightarrow> string list \<Rightarrow> event_error option" where
  "check_required d [] = None"
| "check_required d (f # fs) =
     (if \<not> nonempty_string (get_field d f) then Some (FieldRequired f)
      else check_required d fs)"

text \<open>The validation phase (event.model.ts, lines 111 to 140).\<close>

definition validate :: "event_doc \<Rightarrow> event_error option" where
  "validate d =
     (case check_required d requiredStringFields of
        Some e \<Rightarrow> Some e
      | None \<Rightarrow>
          if \<not> nonempty_array (agenda d) then Some AgendaEmpty
          else if \<not> nonempty_array (tags d) then Some TagsEmpty
          else None)"

text \<open>
  A \<open>Date\<close> that is not \<open>Invalid Date\<close>, given by the UTC fields of its time value, which
  are what \<open>toISOString\<close> prints. How \<open>new Date(string)\<close> reads a string is left to the
  JavaScript engine for every format but the ISO one, so the parser is a parameter of the
  hook: \<open>None\<close> is \<open>Invalid Date\<close>, whose \<open>getTime()\<close> is \<open>NaN\<close>.
\<close>

record utc_date =
  utc_year :: int
  utc_month :: nat
  utc_day :: nat
  utc_hours :: nat
  utc_minutes :: nat
  utc_seconds :: nat
  utc_millis :: nat

definition pad_nat :: "nat \<Rightarrow> nat \<Rightarrow> string" where
  "pad_nat w n = padStart w CHR ''0'' (nat_toString n)"

text \<open>
  The year of \<open>toISOString\<close>: four digits from 0 to 9999, otherwise a sign and six digits.
\<close>

definition iso_year :: "int \<Rightarrow> string" where
  "iso_year y =
     (if 0 \<le> y \<and> y \<le> 9999 then pad_nat 4 (nat y)
      else if y < 0 then CHR ''-'' # pad_nat 6 (nat (- y))
      else CHR ''+'' # pad_nat 6 (nat y))"

definition toISOString :: "utc_date \<Rightarrow> string" where
  "toISOString t =
     iso_year (utc_year t) @ ''-'' @ pad_nat 2 (utc_month t) @ ''-'' @ pad_nat 2 (utc_day t)
     @ ''T'' @ pad_nat 2 (utc_hours t) @ '':'' @ pad_nat 2 (utc_minutes t) @ '':''
     @ pad_nat 2 (utc_seconds t) @ ''.'' @ pad_nat 3 (utc_millis t) @ ''Z''"

text \<open>\<open>s.split('T')[0]\<close>: the part of \<open>s\<close> before its first \<open>T\<close>.\<close>

definition split_T_first :: "string \<Rightarrow> string" where
  "split_T_first s = takeWhile (\<lambda>c. c \<noteq> CHR ''T'') s"

text \<open>The string of a path that the validation phase has found to be a string.\<close>

fun str_of :: "jsval \<Rightarrow> string" where
  "str_of (Str s) = s"
| "str_of _ = []"

text \<open>
  The normalization phase (event.model.ts, lines 142 to 165), one definition for each of
  its three steps. The hook assigns to \<open>this\<close> as it goes, so a step gives the error it
  passes to \<open>next\<close>, if any, together with the document as it leaves it.
\<close>

definition slug_step :: "event_doc \<Rightarrow> event_doc" where
  "slug_step d =
     (if isNew d \<or> isModified d ''title''
      then d\<lparr>slug := Str (slugify (str_of (title d)))\<rparr>
      else d)"

definition date_step :: "(string \<Rightarrow> utc_date option) \<Rightarrow> event_doc \<Rightarrow> event_error option \<times> event_doc" where
  "date_step Date_parse d =
     (if isNew d \<or> isModified d ''date''
      then (case Date_parse (str_of (date d)) of
              None \<Rightarrow> (Some InvalidDateFormat, d)
            | Some parsedDate \<Rightarrow>
                (None, d\<lparr>date := Str (split_T_first (toISOString parsedDate))\<rparr>))
      else (None, d))"

definition time_step :: "event_doc \<Rightarrow> event_error option \<times> event_doc" where
  "time_step d =
     (if isNew d \<or> isModified d ''time''
      then (case normalizeTime (str_of (time d)) of
              None \<Rightarrow> (Some InvalidTimeFormat, d)
            | Some normalizedTime \<Rightarrow> (None, d\<lparr>time := Str normalizedTime\<rparr>))
      else (None, d))"

definition normalize :: "(string \<Rightarrow> utc_date option) \<Rightarrow> event_doc \<Rightarrow> event_error option \<times> event_doc" where
  "normalize Date_parse d =
     (case date_step Date_parse (slug_step d) of
        (Some e, d') \<Rightarrow> (Some e, d')
      | (None, d') \<Rightarrow> time_step d')"

text \<open>The pre-save hook of the Event schema (event.model.ts, lines 110 to 166).\<close>

definition event_pre_save :: "(string \<Rightarrow> utc_date option) \<Rightarrow> event_doc \<Rightarrow> event_error option \<times> event_doc" where
  "event_pre_save Date_parse d =
     (case validate d of
        Some e \<Rightarrow> (Some e, d)
      | None \<Rightarrow> normalize Date_parse d)"

section \<open>Booking model\<close>

type_synonym objectid = nat

text \<open>
  The pattern \<open>/^[^\s@]+@[^\s@]+\.[^\s@]+$/\<close>. The first \<open>[^\s@]+\<close> takes the run of
  code units before the \<open>@\<close>; after the \<open>@\<close> everything up to the end must be in the
  class \<open>[^\s@]\<close> (the dot is in that class too), and the pattern matches when one of the
  dots there has at least one code unit on each side.
\<close>

definition not_space_at :: "char \<Rightarrow> bool" where
  "not_space_at c = (\<not> is_space c \<and> c \<noteq> CHR ''@'')"

definition emailRegex_test :: "string \<Rightarrow> bool" where
  "emailRegex_test s =
     (let local_part = takeWhile not_space_at s;
          rest = dropWhile not_space_at s
      in local_part \<noteq> [] \<and>
         (case rest of
            [] \<Rightarrow> False
          | c # host \<Rightarrow>
              c = CHR ''@'' \<and> list_all not_space_at host \<and>
              list_ex (\<lambda>i. host ! i = CHR ''.'') [1 ..< length host - 1]))"

text \<open>
  The setters of the path \<open>email\<close> (\<open>trim: true\<close>, \<open>lowercase: true\<close>), which Mongoose
  applies when a string is assigned to the path.
\<close>

definition set_email :: "string \<Rightarrow> string" where
  "set_email v = toLowerCase (trim v)"

text \<open>
  A Booking document. The path \<open>email\<close> has the schema type String, so it holds a
  string, or nothing (\<open>undefined\<close> or \<open>null\<close>), which is \<open>None\<close>; the same for
  the reference \<open>eventId\<close>.
\<close>

record booking_doc =
  eventId :: "objectid option"
  email :: "string option"

text \<open>
  The errors of a Booking save. \<open>ValidationError ps\<close> is the error of Mongoose's own
  validation, with the paths \<open>ps\<close> whose \<open>required\<close> validator fails; the next three are
  the errors that the hook makes, with the messages \<open>A valid email address is required.\<close>,
  \<open>eventId is required.\<close> and \<open>Referenced event does not exist.\<close>; \<open>Thrown e\<close> is an
  error \<open>e\<close> thrown by the query and passed on by the hook.
\<close>

datatype 'e booking_error =
  ValidationError "string list"
| InvalidEmail
| EventIdRequired
| ReferencedEventMissing
| Thrown 'e

text \<open>
  What \<open>await Event.exists({ _id })\<close> comes to: a document, \<open>null\<close>, or an error thrown
  by the query.
\<close>

datatype 'e exists_result = Found | NotFound | QueryError 'e

text \<open>
  The test of the first \<open>if\<close>, negated: \<open>this.email\<close> is truthy (a string that is not
  empty) and the pattern matches it.
\<close>

fun email_ok :: "string option \<Rightarrow> bool" where
  "email_ok None = False"
| "email_ok (Some s) = (s \<noteq> [] \<and> emailRegex_test s)"

text \<open>
  The pre-save hook of the Booking schema (booking.model.ts, lines 45 to 67):
  \<open>None\<close> is \<open>next()\<close>, \<open>Some e\<close> is \<open>next(e)\<close>. The hook does not assign to the document.
\<close>

definition booking_pre_save :: "(objectid \<Rightarrow> 'e exists_result) \<Rightarrow> booking_doc \<Rightarrow> 'e booking_error option" where
  "booking_pre_save Event_exists b =
     (if \<not> email_ok (email b) then Some InvalidEmail
      else (case eventId b of
              None \<Rightarrow> Some EventIdRequired
            | Some eid \<Rightarrow>
                (case Event_exists eid of
                   QueryError e \<Rightarrow> Some (Thrown e)
                 | NotFound \<Rightarrow> Some ReferencedEventMissing
                 | Found \<Rightarrow> None)))"

text \<open>
  The validators that \<open>required: true\<close> gives the two paths (booking.model.ts, lines 26
  and 31): \<open>eventId\<close> must not be \<open>undefined\<close> or \<open>null\<close>, and \<open>email\<close> must be a string
  that is not empty. The result is the list of the paths that fail, in the order of the
  schema.
\<close>

definition required_failures :: "booking_doc \<Rightarrow> string list" where
  "required_failures b =
     (case eventId b of None \<Rightarrow> [''eventId''] | Some eid \<Rightarrow> [])
     @ (case email b of
          None \<Rightarrow> [''email'']
        | Some s \<Rightarrow> if s = [] then [''email''] else [])"

text \<open>
  Saving a Booking made from an event reference and an email string. The setters run when
  the document is made. On save Mongoose first runs the validators of the schema, and
  fails with one \<open>ValidationError\<close> for the paths that fail, without running the hook;
  when they pass it runs the pre-save hook, and the document is stored when the hook
  passes.
\<close>

definition new_booking :: "objectid option \<Rightarrow> string \<Rightarrow> booking_doc" where
  "new_booking eid raw_email = \<lparr>eventId = eid, email = Some (set_email raw_email)\<rparr>"

definition save_booking :: "(objectid \<Rightarrow> 'e exists_result) \<Rightarrow> objectid option \<Rightarrow> string \<Rightarrow> 'e booking_error + booking_doc" where
  "save_booking Event_exists eid raw_email =
     (let b = new_booking eid raw_email in
      if required_failures b \<noteq> [] then Inl (ValidationError (required_failures b))
      else (case booking_pre_save Event_exists b of
              Some e \<Rightarrow> Inl e
            | None \<Rightarrow> Inr b))"

section \<open>Connection cache\<close>

text \<open>
  \<open>connectToDatabase\<close> is an \<open>async\<close> function on one thread: a call runs without
  interruption up to its \<open>await\<close>, and goes on in a later turn of the event loop, once the
  promise it waits for is settled. The model is a transition system with three kinds of
  step: a call running up to its \<open>await\<close> (or returning the cached handle), the
  connection attempt behind a promise finishing, and a suspended call going on after its
  \<open>await\<close>. A schedule is a list of such steps in any order.
\<close>

type_synonym handle = nat

datatype promise_state = Pending | Fulfilled handle | Rejected string

datatype call_result = Returned handle | Threw string

text \<open>
  \<open>conn\<close> and \<open>promise\<close> are the two fields of \<open>cached\<close>; \<open>promise\<close> holds the address
  of a promise in \<open>promises\<close>, the promises that \<open>mongoose.connect\<close> has made so far,
  one for each connection attempt. \<open>awaiting\<close> are the suspended calls, each with the
  promise it waits for, and \<open>results\<close> says how the finished calls ended.
\<close>

record cache =
  conn :: "handle option"
  promise :: "nat option"
  promises :: "promise_state list"
  awaiting :: "(nat \<times> nat) list"
  results :: "(nat \<times> call_result) list"

definition attempts :: "cache \<Rightarrow> nat" where
  "attempts s = length (promises s)"

text \<open>The module's initial \<open>cached\<close> object, \<open>{ conn: null, promise: null }\<close>.\<close>

definition initial_cache :: cache where
  "initial_cache = \<lparr>conn = None, promise = None, promises = [], awaiting = [], results = []\<rparr>"

text \<open>
  A call of \<open>connectToDatabase\<close> by caller \<open>c\<close>, up to its \<open>await\<close> (part_000, lines 56
  to 77): with a cached connection it returns it; otherwise it makes the promise if there
  is none, and waits for the cached promise.
\<close>

definition call_step :: "nat \<Rightarrow> cache \<Rightarrow> cache" where
  "call_step c s =
     (case conn s of
        Some h \<Rightarrow> s\<lparr>results := results s @ [(c, Returned h)]\<rparr>
      | None \<Rightarrow>
          let s1 = (case promise s of
                      None \<Rightarrow> s\<lparr>promises := promises s @ [Pending],
                                promise := Some (length (promises s))\<rparr>
                    | Some p \<Rightarrow> s)
          in (case promise s1 of
                None \<Rightarrow> s1
              | Some p \<Rightarrow> s1\<lparr>awaiting := awaiting s1 @ [(c, p)]\<rparr>))"

text \<open>The connection attempt behind promise \<open>p\<close> finishes with the outcome \<open>out\<close>.\<close>

definition settle_step :: "nat \<Rightarrow> promise_state \<Rightarrow> cache \<Rightarrow> cache" where
  "settle_step p out s =
     (if p < length (promises s) \<and> promises s ! p = Pending \<and> out \<noteq> Pending
      then s\<lparr>promises := (promises s)[p := out]\<rparr>
      else s)"

text \<open>
  The suspended call of caller \<open>c\<close> goes on after its \<open>await\<close> (part_000, lines 77 to
  79): a fulfilled promise gives the handle, which is stored in \<open>cached.conn\<close> and
  returned; a rejected promise makes the \<open>await\<close> throw, and the call ends with that error
  without touching \<open>cached\<close>.
\<close>

definition resume_step :: "nat \<Rightarrow> cache \<Rightarrow> cache" where
  "resume_step c s =
     (case find (\<lambda>w. fst w = c) (awaiting s) of
        None \<Rightarrow> s
      | Some w \<Rightarrow>
          if snd w < length (promises s)
          then (case promises s ! snd w of
                  Pending \<Rightarrow> s
                | Fulfilled h \<Rightarrow>
                    s\<lparr>conn := Some h, awaiting := remove1 w (awaiting s),
                      results := results s @ [(c, Returned h)]\<rparr>
                | Rejected e \<Rightarrow>
                    s\<lparr>awaiting := remove1 w (awaiting s),
                      results := results s @ [(c, Threw e)]\<rparr>)
          else s)"

datatype event = Call nat | Settle nat promise_state | Resume nat

fun step :: "event \<Rightarrow> cache \<Rightarrow> cache" where
  "step (Call c) s = call_step c s"
| "step (Settle p out) s = settle_step p out s"
| "step (Resume c) s = resume_step c s"

fun run :: "cache \<Rightarrow> event list \<Rightarrow> cache" where
  "run s [] = s"
| "run s (e # es) = run (step e s) es"

fun is_call :: "event \<Rightarrow> bool" where
  "is_call (Call c) = True"
| "is_call _ = False"

section \<open>Notions used to state the properties\<close>

text \<open>
  The maximal runs of code units in \<open>[a-z0-9]\<close> of a string, from left to right, and
  a list of strings joined by single dashes.
\<close>

function alnum_words :: "string \<Rightarrow> string list" where
  "alnum_words s =
     (case dropWhile (\<lambda>x. \<not> is_lower_alnum x) s of
        [] \<Rightarrow> []
      | c # cs \<Rightarrow> (c # takeWhile is_lower_alnum cs) # alnum_words (dropWhile is_lower_alnum cs))"
  by pat_completeness auto
termination
proof (relation "measure length")
  fix s :: string and c cs
  assume "dropWhile (\<lambda>x. \<not> is_lower_alnum x) s = c # cs"
  then have "length s \<ge> Suc (length cs)"
    using length_dropWhile_le[of "\<lambda>x. \<not> is_lower_alnum x" s] by simp
  moreover have "length (dropWhile is_lower_alnum cs) \<le> length cs"
    by (rule length_dropWhile_le)
  ultimately show "(dropWhile is_lower_alnum cs, s) \<in> measure length" by simp
qed simp

declare alnum_words.simps [simp del]

fun join_dash :: "string list \<Rightarrow> string" where
  "join_dash [] = []"
| "join_dash [w] = w"
| "join_dash (w # v # ws) = w @ CHR ''-'' # join_dash (v # ws)"

text \<open>A word of a slug: not empty, and made of \<open>[a-z0-9]\<close> only.\<close>

definition word_ok :: "string \<Rightarrow> bool" where
  "word_ok w = (w \<noteq> [] \<and> list_all is_lower_alnum w)"

text \<open>Two dashes next to each other somewhere in a string.\<close>

fun double_dash :: "string \<Rightarrow> bool" where
  "double_dash (a # b # cs) = ((is_dash a \<and> is_dash b) \<or> double_dash (b # cs))"
| "double_dash _ = False"


definition two_digits :: "nat \<Rightarrow> string" where
  "two_digits n = [digit_char (n div 10), digit_char (n mod 10)]"



text \<open>
  The grammar of a time, in four parts: the hour \<open>h\<close> of one or two digits; the minutes
  \<open>m\<close>, absent or a colon and two digits; white space \<open>ws\<close>, of any length; the suffix
  \<open>p\<close>, absent or \<open>am\<close> or \<open>pm\<close>. \<open>time_text\<close> is the string that the four parts make,
  and \<open>hour24\<close> is the conversion of a 12-hour hour to a 24-hour one (no change without
  a suffix).
\<close>

definition time_text :: "string \<Rightarrow> string option \<Rightarrow> string \<Rightarrow> string option \<Rightarrow> string" where
  "time_text h m ws p =
     h @ (case m of None \<Rightarrow> [] | Some mm \<Rightarrow> CHR '':'' # mm) @ ws
       @ (case p of None \<Rightarrow> [] | Some pp \<Rightarrow> pp)"

definition time_parts_ok :: "string \<Rightarrow> string option \<Rightarrow> string \<Rightarrow> string option \<Rightarrow> bool" where
  "time_parts_ok h m ws p =
     (h \<noteq> [] \<and> length h \<le> 2 \<and> list_all is_digit h
      \<and> (case m of None \<Rightarrow> True | Some mm \<Rightarrow> length mm = 2 \<and> list_all is_digit mm)
      \<and> list_all is_space ws
      \<and> (case p of None \<Rightarrow> True | Some pp \<Rightarrow> pp = ''am'' \<or> pp = ''pm''))"

definition hour24 :: "int \<Rightarrow> string option \<Rightarrow> int" where
  "hour24 h p =
     (if p = Some ''pm'' \<and> h \<noteq> 12 then h + 12
      else if p = Some ''am'' \<and> h = 12 then 0
      else h)"

text \<open>
  The invariant of the connection cache: at most one promise is ever made, it is the
  cached one, and every suspended call waits for it.
\<close>

definition cache_inv :: "cache \<Rightarrow> bool" where
  "cache_inv s =
     ((promise s = None \<longrightarrow> promises s = [] \<and> conn s = None \<and> awaiting s = [])
      \<and> (promise s \<noteq> None \<longrightarrow> promise s = Some 0 \<and> length (promises s) = 1)
      \<and> list_all (\<lambda>w. Some (snd w) = promise s) (awaiting s))"

section \<open>Sample data\<close>

text \<open>A new Event as a route handler would make it, and a parser that reads its date.\<close>

definition sample_event :: event_doc where
  "sample_event =
     \<lparr>title = Str ''React Summit'', slug = Undefined, description = Str ''A conference'',
      overview = Str ''Talks'', image_url = Str ''/img.png'', venue = Str ''Hall 1'',
      location = Str ''Amsterdam'', date = Str ''June 13, 2025'', time = Str ''9:30 am'',
      mode = Str ''offline'', audience = Str ''developers'', agenda = Arr [''Keynote''],
      organizer = Str ''GitNation'', tags = Arr [''react''], isNew = True, modifiedPaths = {}\<rparr>"

definition sample_parse :: "string \<Rightarrow> utc_date option" where
  "sample_parse s =
     (if s = ''June 13, 2025''
      then Some \<lparr>utc_year = 2025, utc_month = 6, utc_day = 13, utc_hours = 0, utc_minutes = 0,
                 utc_seconds = 0, utc_millis = 0\<rparr>
      else None)"



text \<open>The sample event as the hook leaves it, no longer new.\<close>

definition stored_event :: event_doc where
  "stored_event =
     sample_event\<lparr>slug := Str ''react-summit'', date := Str ''2025-06-13'', time := Str ''09:30'',
                  isNew := False\<rparr>"

text \<open>An Event collection: event 1 is there, event 2 is not, any other query fails.\<close>

definition sample_events :: "objectid \<Rightarrow> string exists_result" where
  "sample_events eid =
     (if eid = 1 then Found else if eid = 2 then NotFound else QueryError ''timeout'')"

section \<open>The connection cache makes one attempt\<close>

lemma cache_inv_initial: "cache_inv initial_cache"
  by (simp add: cache_inv_def initial_cache_def)

lemma list_all_remove1: "list_all P xs \<Longrightarrow> list_all P (remove1 x xs)"
  by (induction xs) auto

lemma cache_inv_call: "cache_inv s \<Longrightarrow> cache_inv (call_step c s)"
  by (auto simp: cache_inv_def call_step_def Let_def split: option.splits)

lemma cache_inv_settle: "cache_inv s \<Longrightarrow> cache_inv (settle_step p out s)"
  by (auto simp: cache_inv_def settle_step_def)

lemma cache_inv_resume: "cache_inv s \<Longrightarrow> cache_inv (resume_step c s)"
  by (auto simp: cache_inv_def resume_step_def list_all_remove1
           split: option.splits promise_state.splits)

lemma cache_inv_step: "cache_inv s \<Longrightarrow> cache_inv (step e s)"
  by (cases e) (simp_all add: cache_inv_call cache_inv_settle cache_inv_resume)

lemma cache_inv_run: "cache_inv s \<Longrightarrow> cache_inv (run s es)"
  by (induction es arbitrary: s) (simp_all add: cache_inv_step)

text \<open>Once \<open>cached.promise\<close> is set, no step assigns to it again.\<close>

lemma promise_step_keep: "promise s = Some p \<Longrightarrow> promise (step e s) = Some p"
  by (cases e)
     (auto simp: call_step_def settle_step_def resume_step_def Let_def
           split: option.splits promise_state.splits)

lemma promise_run_keep: "promise s = Some p \<Longrightarrow> promise (run s es) = Some p"
  by (induction es arbitrary: s) (simp_all add: promise_step_keep)

lemma promise_call: "cache_inv s \<Longrightarrow> promise (call_step c s) \<noteq> None"
  by (auto simp: cache_inv_def call_step_def Let_def split: option.splits)

lemma promise_step_no_call:
  "\<not> is_call e \<Longrightarrow> cache_inv s \<Longrightarrow> promise s = None \<Longrightarrow> promise (step e s) = None"
  by (cases e)
     (auto simp: cache_inv_def settle_step_def resume_step_def Let_def
           split: option.splits promise_state.splits)

lemma promise_run_iff:
  "cache_inv s \<Longrightarrow> promise s = None \<Longrightarrow> (promise (run s es) \<noteq> None) = list_ex is_call es"
proof (induction es arbitrary: s)
  case Nil
  then show ?case by simp
next
  case (Cons e es)
  show ?case
  proof (cases "is_call e")
    case True
    then obtain c where e: "e = Call c" by (cases e) auto
    have "promise (step e s) \<noteq> None" using Cons.prems(1) e by (simp add: promise_call)
    then obtain p where "promise (step e s) = Some p" by blast
    then have "promise (run (step e s) es) = Some p" by (rule promise_run_keep)
    with True show ?thesis by simp
  next
    case False
    have "promise (step e s) = None" using False Cons.prems by (rule promise_step_no_call)
    moreover have "cache_inv (step e s)" using Cons.prems(1) by (rule cache_inv_step)
    ultimately have "(promise (run (step e s) es) \<noteq> None) = list_ex is_call es"
      by (rule Cons.IH[rotated])
    with False show ?thesis by simp
  qed
qed

lemma attempts_inv: "cache_inv s \<Longrightarrow> attempts s = (if promise s = None then 0 else 1)"
  by (auto simp: cache_inv_def attempts_def)

text \<open>
  Claim C9. Whatever the schedule of calls, settlements and resumptions from the
  initial cache, and so also when two calls run before the first is resolved,
  \<open>mongoose.connect\<close> has been called exactly once as soon as there was a call (and not at
  all before); every suspended call waits for the one cached promise; and a call made
  when a handle is cached returns that handle at once and leaves the rest of the cache,
  the number of attempts included, as it was.
\<close>

theorem connect_once:
  "attempts (run initial_cache es) = (if list_ex is_call es then 1 else 0)
   \<and> list_all (\<lambda>w. Some (snd w) = promise (run initial_cache es)) (awaiting (run initial_cache es))
   \<and> (\<forall>h c. conn (run initial_cache es) = Some h \<longrightarrow>
         step (Call c) (run initial_cache es)
           = (run initial_cache es)\<lparr>results := results (run initial_cache es) @ [(c, Returned h)]\<rparr>)"
proof -
  let ?s = "run initial_cache es"
  have inv: "cache_inv ?s" by (rule cache_inv_run[OF cache_inv_initial])
  have "(promise ?s \<noteq> None) = list_ex is_call es"
    by (rule promise_run_iff[OF cache_inv_initial]) (simp add: initial_cache_def)
  then have "attempts ?s = (if list_ex is_call es then 1 else 0)"
    using attempts_inv[OF inv] by auto
  moreover have "list_all (\<lambda>w. Some (snd w) = promise ?s) (awaiting ?s)"
    using inv by (simp add: cache_inv_def)
  moreover have "\<forall>h c. conn ?s = Some h \<longrightarrow>
      step (Call c) ?s = ?s\<lparr>results := results ?s @ [(c, Returned h)]\<rparr>"
    by (simp add: call_step_def)
  ultimately show ?thesis by blast
qed

text \<open>
  Two callers before the promise is fulfilled, a third after it: one attempt, and
  the third caller gets the cached handle straight away.
\<close>

theorem connect_once_witness:
  "attempts (run initial_cache [Call 1, Call 2, Settle 0 (Fulfilled 7), Resume 2]) = 1
   \<and> awaiting (run initial_cache [Call 1, Call 2, Settle 0 (Fulfilled 7), Resume 2]) = [(1, 0)]
   \<and> conn (run initial_cache [Call 1, Call 2, Settle 0 (Fulfilled 7), Resume 2]) = Some 7
   \<and> results (step (Call 3) (run initial_cache [Call 1, Call 2, Settle 0 (Fulfilled 7), Resume 2]))
       = [(2, Returned 7), (3, Returned 7)]"
proof -
  have c: "conn (run initial_cache [Call 1, Call 2, Settle 0 (Fulfilled 7), Resume 2]) = Some 7"
    by code_simp
  have a: "awaiting (run initial_cache [Call 1, Call 2, Settle 0 (Fulfilled 7), Resume 2]) = [(1, 0)]"
    by code_simp
  have r: "results (run initial_cache [Call 1, Call 2, Settle 0 (Fulfilled 7), Resume 2])
             = [(2, Returned 7)]"
    by code_simp
  from connect_once[of "[Call 1, Call 2, Settle 0 (Fulfilled 7), Resume 2]"] c a r
  show ?thesis by simp
qed

text \<open>
  Claim C3. The claim asks that a rejected first attempt is not cached, so that the next
  call starts a fresh attempt. The code keeps the rejected promise in \<open>cached.promise\<close>:
  when the first attempt is rejected and a second call is made afterwards, there is still
  one attempt only, and the second call ends with the first attempt's error.
\<close>

theorem rejected_promise_stays_cached:
  "run initial_cache
     [Call 1, Settle 0 (Rejected ''ECONNREFUSED''), Resume 1, Call 2, Resume 2]
   = \<lparr>conn = None, promise = Some 0, promises = [Rejected ''ECONNREFUSED''], awaiting = [],
      results = [(1, Threw ''ECONNREFUSED''), (2, Threw ''ECONNREFUSED'')]\<rparr>
   \<and> attempts (run initial_cache
        [Call 1, Settle 0 (Rejected ''ECONNREFUSED''), Resume 1, Call 2, Resume 2]) = 1"
  by code_simp

section \<open>Event model: the validation phase\<close>

lemma check_required_find:
  "check_required d fs
     = map_option FieldRequired (find (\<lambda>f. \<not> nonempty_string (get_field d f)) fs)"
  by (induction fs) simp_all

lemma check_required_None:
  "(check_required d fs = None) = (\<forall>f \<in> set fs. nonempty_string (get_field d f))"
  by (induction fs) simp_all

lemma check_required_Some:
  "check_required d fs = Some e \<Longrightarrow>
   \<exists>f \<in> set fs. e = FieldRequired f \<and> \<not> nonempty_string (get_field d f)"
  by (induction fs) (auto split: if_splits)

text \<open>
  Claim C4. If one of the required string fields is not a string or is empty after
  trimming, the hook fails with the error that names the first such field of the list, and
  leaves the document as it was. If they all pass and \<open>agenda\<close> is not a non-empty array,
  it fails with the agenda error; if \<open>agenda\<close> passes too and \<open>tags\<close> is not a non-empty
  array, with the tags error. A bad \<open>agenda\<close> or \<open>tags\<close> always makes the hook fail with
  one of these validation errors. If every check passes, the validation phase gives no
  error and the hook goes on with the normalization phase.
\<close>

theorem validation_phase:
  "((\<exists>f \<in> set requiredStringFields. \<not> nonempty_string (get_field d f)) \<longrightarrow>
      (\<exists>g \<in> set requiredStringFields. \<not> nonempty_string (get_field d g)
          \<and> find (\<lambda>f. \<not> nonempty_string (get_field d f)) requiredStringFields = Some g
          \<and> event_pre_save Date_parse d = (Some (FieldRequired g), d)))
   \<and> ((\<forall>f \<in> set requiredStringFields. nonempty_string (get_field d f))
        \<and> \<not> nonempty_array (agenda d) \<longrightarrow>
        event_pre_save Date_parse d = (Some AgendaEmpty, d))
   \<and> ((\<forall>f \<in> set requiredStringFields. nonempty_string (get_field d f))
        \<and> nonempty_array (agenda d) \<and> \<not> nonempty_array (tags d) \<longrightarrow>
        event_pre_save Date_parse d = (Some TagsEmpty, d))
   \<and> (\<not> nonempty_array (agenda d) \<or> \<not> nonempty_array (tags d) \<longrightarrow>
        fst (event_pre_save Date_parse d)
          \<in> {Some AgendaEmpty, Some TagsEmpty} \<union> (Some ` FieldRequired ` set requiredStringFields))
   \<and> ((\<forall>f \<in> set requiredStringFields. nonempty_string (get_field d f))
        \<and> nonempty_array (agenda d) \<and> nonempty_array (tags d) \<longrightarrow>
        validate d = None \<and> event_pre_save Date_parse d = normalize Date_parse d)"
proof (intro conjI impI)
  assume "\<exists>f \<in> set requiredStringFields. \<not> nonempty_string (get_field d f)"
  then have "check_required d requiredStringFields \<noteq> None"
    by (simp add: check_required_None)
  then obtain e where e: "check_required d requiredStringFields = Some e" by blast
  then obtain g
    where g: "find (\<lambda>f. \<not> nonempty_string (get_field d f)) requiredStringFields = Some g"
      and eg: "e = FieldRequired g"
    by (auto simp: check_required_find)
  from g have "g \<in> set requiredStringFields" "\<not> nonempty_string (get_field d g)"
    by (auto simp: find_Some_iff)
  moreover have "event_pre_save Date_parse d = (Some (FieldRequired g), d)"
    using e eg by (simp add: event_pre_save_def validate_def)
  ultimately show "\<exists>g \<in> set requiredStringFields. \<not> nonempty_string (get_field d g)
          \<and> find (\<lambda>f. \<not> nonempty_string (get_field d f)) requiredStringFields = Some g
          \<and> event_pre_save Date_parse d = (Some (FieldRequired g), d)"
    using g by blast
next
  assume "(\<forall>f \<in> set requiredStringFields. nonempty_string (get_field d f))
          \<and> \<not> nonempty_array (agenda d)"
  then show "event_pre_save Date_parse d = (Some AgendaEmpty, d)"
    by (simp add: event_pre_save_def validate_def check_required_None[symmetric])
next
  assume "(\<forall>f \<in> set requiredStringFields. nonempty_string (get_field d f))
          \<and> nonempty_array (agenda d) \<and> \<not> nonempty_array (tags d)"
  then show "event_pre_save Date_parse d = (Some TagsEmpty, d)"
    by (simp add: event_pre_save_def validate_def check_required_None[symmetric])
next
  assume a: "\<not> nonempty_array (agenda d) \<or> \<not> nonempty_array (tags d)"
  show "fst (event_pre_save Date_parse d)
          \<in> {Some AgendaEmpty, Some TagsEmpty} \<union> (Some ` FieldRequired ` set requiredStringFields)"
  proof (cases "check_required d requiredStringFields")
    case None
    with a show ?thesis by (auto simp: event_pre_save_def validate_def)
  next
    case (Some e)
    from check_required_Some[OF Some]
    obtain f where "f \<in> set requiredStringFields" "e = FieldRequired f"
      by blast
    with Some show ?thesis by (simp add: event_pre_save_def validate_def)
  qed
next
  assume "(\<forall>f \<in> set requiredStringFields. nonempty_string (get_field d f))
          \<and> nonempty_array (agenda d) \<and> nonempty_array (tags d)"
  then have "validate d = None"
    by (simp add: validate_def check_required_None[symmetric])
  then show "validate d = None" "event_pre_save Date_parse d = normalize Date_parse d"
    by (simp_all add: event_pre_save_def)
qed

text \<open>
  The sample event with a blank venue, with an empty agenda, with no tags, and as it is.
\<close>

theorem validation_phase_witness:
  "event_pre_save sample_parse (sample_event\<lparr>venue := Str ''   '', mode := Null\<rparr>)
     = (Some (FieldRequired ''venue''), sample_event\<lparr>venue := Str ''   '', mode := Null\<rparr>)
   \<and> event_pre_save sample_parse (sample_event\<lparr>agenda := Arr []\<rparr>)
     = (Some AgendaEmpty, sample_event\<lparr>agenda := Arr []\<rparr>)
   \<and> event_pre_save sample_parse (sample_event\<lparr>tags := Null\<rparr>)
     = (Some TagsEmpty, sample_event\<lparr>tags := Null\<rparr>)
   \<and> validate sample_event = None
   \<and> event_pre_save sample_parse sample_event = normalize sample_parse sample_event"
proof -
  have bad: "\<exists>f \<in> set requiredStringFields.
      \<not> nonempty_string (get_field (sample_event\<lparr>venue := Str ''   '', mode := Null\<rparr>) f)"
    by code_simp
  have first: "find (\<lambda>f. \<not> nonempty_string
        (get_field (sample_event\<lparr>venue := Str ''   '', mode := Null\<rparr>) f)) requiredStringFields
      = Some ''venue''"
    by code_simp
  have a: "(\<forall>f \<in> set requiredStringFields.
        nonempty_string (get_field (sample_event\<lparr>agenda := Arr []\<rparr>) f))
      \<and> \<not> nonempty_array (agenda (sample_event\<lparr>agenda := Arr []\<rparr>))"
    by code_simp
  have t: "(\<forall>f \<in> set requiredStringFields.
        nonempty_string (get_field (sample_event\<lparr>tags := Null\<rparr>) f))
      \<and> nonempty_array (agenda (sample_event\<lparr>tags := Null\<rparr>))
      \<and> \<not> nonempty_array (tags (sample_event\<lparr>tags := Null\<rparr>))"
    by code_simp
  have g: "(\<forall>f \<in> set requiredStringFields. nonempty_string (get_field sample_event f))
      \<and> nonempty_array (agenda sample_event) \<and> nonempty_array (tags sample_event)"
    by code_simp
  have "event_pre_save sample_parse (sample_event\<lparr>venue := Str ''   '', mode := Null\<rparr>)
     = (Some (FieldRequired ''venue''), sample_event\<lparr>venue := Str ''   '', mode := Null\<rparr>)"
    using validation_phase[of "sample_event\<lparr>venue := Str ''   '', mode := Null\<rparr>" sample_parse]
      bad first
    by auto
  moreover have "event_pre_save sample_parse (sample_event\<lparr>agenda := Arr []\<rparr>)
     = (Some AgendaEmpty, sample_event\<lparr>agenda := Arr []\<rparr>)"
    using validation_phase[of "sample_event\<lparr>agenda := Arr []\<rparr>" sample_parse] a by blast
  moreover have "event_pre_save sample_parse (sample_event\<lparr>tags := Null\<rparr>)
     = (Some TagsEmpty, sample_event\<lparr>tags := Null\<rparr>)"
    using validation_phase[of "sample_event\<lparr>tags := Null\<rparr>" sample_parse] t by blast
  moreover have "validate sample_event = None
     \<and> event_pre_save sample_parse sample_event = normalize sample_parse sample_event"
    using validation_phase[of sample_event sample_parse] g by blast
  ultimately show ?thesis by blast
qed

section \<open>Event model: what the normalization phase leaves alone\<close>

text \<open>
  Claim C7. The hook assigns to \<open>slug\<close> only when the document is new or \<open>title\<close> is
  modified, to \<open>date\<close> only when it is new or \<open>date\<close> is modified, and to \<open>time\<close> only
  when it is new or \<open>time\<close> is modified: otherwise the field is, after the hook, what it
  was before, whether the hook passes or fails. So an existing document saved with
  \<open>title\<close>, \<open>date\<close> and \<open>time\<close> unmodified keeps its \<open>slug\<close>, \<open>date\<close> and \<open>time\<close>.
\<close>

theorem unmodified_fields_kept:
  "(\<not> isNew d \<and> \<not> isModified d ''title'' \<longrightarrow> slug (snd (event_pre_save Date_parse d)) = slug d)
   \<and> (\<not> isNew d \<and> \<not> isModified d ''date'' \<longrightarrow> date (snd (event_pre_save Date_parse d)) = date d)
   \<and> (\<not> isNew d \<and> \<not> isModified d ''time'' \<longrightarrow> time (snd (event_pre_save Date_parse d)) = time d)"
  by (auto simp: event_pre_save_def normalize_def slug_step_def date_step_def time_step_def
                 isModified_def
           split: option.splits prod.splits if_splits)

text \<open>
  The sample event once stored, loaded again and saved after a change of venue only: the
  hook passes and the three fields are as they were stored.
\<close>

theorem unmodified_fields_kept_witness:
  "\<not> isNew (stored_event\<lparr>venue := Str ''Hall 2'', modifiedPaths := {''venue''}\<rparr>)
   \<and> \<not> isModified (stored_event\<lparr>venue := Str ''Hall 2'', modifiedPaths := {''venue''}\<rparr>) ''title''
   \<and> \<not> isModified (stored_event\<lparr>venue := Str ''Hall 2'', modifiedPaths := {''venue''}\<rparr>) ''date''
   \<and> \<not> isModified (stored_event\<lparr>venue := Str ''Hall 2'', modifiedPaths := {''venue''}\<rparr>) ''time''
   \<and> slug (snd (event_pre_save sample_parse
        (stored_event\<lparr>venue := Str ''Hall 2'', modifiedPaths := {''venue''}\<rparr>))) = Str ''react-summit''
   \<and> date (snd (event_pre_save sample_parse
        (stored_event\<lparr>venue := Str ''Hall 2'', modifiedPaths := {''venue''}\<rparr>))) = Str ''2025-06-13''
   \<and> time (snd (event_pre_save sample_parse
        (stored_event\<lparr>venue := Str ''Hall 2'', modifiedPaths := {''venue''}\<rparr>))) = Str ''09:30''"
proof -
  let ?d = "stored_event\<lparr>venue := Str ''Hall 2'', modifiedPaths := {''venue''}\<rparr>"
  have h: "\<not> isNew ?d" "\<not> isModified ?d ''title''" "\<not> isModified ?d ''date''"
    "\<not> isModified ?d ''time''"
    by code_simp+
  have f: "slug ?d = Str ''react-summit''" "date ?d = Str ''2025-06-13''" "time ?d = Str ''09:30''"
    by code_simp+
  from unmodified_fields_kept[of ?d sample_parse] h f show ?thesis by simp
qed

section \<open>Event model: the slug\<close>

lemma code_lower_char:
  "code (lower_char c) =
     (if (65 \<le> code c \<and> code c \<le> 90) \<or> (192 \<le> code c \<and> code c \<le> 222 \<and> code c \<noteq> 215)
      then code c + 32 else code c)"
  by (auto simp: lower_char_def is_upper_def code_def)

lemma lower_char_not_upper: "\<not> is_upper (lower_char c)"
  by (auto simp: is_upper_def code_lower_char)

lemma lower_char_idem: "lower_char (lower_char c) = lower_char c"
  by (simp add: lower_char_def[of "lower_char c"] lower_char_not_upper)

lemma toLowerCase_idem: "toLowerCase (toLowerCase s) = toLowerCase s"
  by (simp add: toLowerCase_def lower_char_idem)

lemma is_space_lower_char: "is_space (lower_char c) = is_space c"
  by (auto simp: is_space_def code_lower_char)

lemma lower_alnum_not_dash: "is_lower_alnum c \<Longrightarrow> \<not> is_dash c"
  by (auto simp: is_lower_alnum_def is_dash_def code_def)

lemma space_not_lower_alnum: "is_space c \<Longrightarrow> \<not> is_lower_alnum c"
  by (auto simp: is_lower_alnum_def is_space_def)

lemma toLowerCase_trim: "toLowerCase (trim s) = trim (toLowerCase s)"
  by (simp add: toLowerCase_def trim_def dropWhile_map rev_map comp_def is_space_lower_char)

subsection \<open>The two replacements give the words joined by dashes\<close>

lemma replace_alnum_prefix:
  "list_all is_lower_alnum w \<Longrightarrow> replace_non_alnum (w @ r) = w @ replace_non_alnum r"
  by (induction w) simp_all

lemma strip_no_dash_prefix:
  "list_all (\<lambda>c. \<not> is_dash c) w \<Longrightarrow> w \<noteq> [] \<Longrightarrow>
   strip_dashes_from b (w @ x) = w @ strip_dashes_from False x"
proof (induction w arbitrary: b)
  case Nil
  then show ?case by simp
next
  case (Cons c w)
  show ?case
  proof (cases "w = []")
    case True
    with Cons.prems show ?thesis by simp
  next
    case False
    with Cons show ?thesis by simp
  qed
qed

lemma alnum_words_Nil: "alnum_words [] = []"
  by (simp add: alnum_words.simps)

lemma alnum_words_skip:
  "\<not> is_lower_alnum c \<Longrightarrow> alnum_words (c # cs) = alnum_words cs"
  by (subst alnum_words.simps, subst (2) alnum_words.simps) simp

lemma alnum_words_word:
  "is_lower_alnum c \<Longrightarrow>
   alnum_words (c # cs) = (c # takeWhile is_lower_alnum cs) # alnum_words (dropWhile is_lower_alnum cs)"
  by (subst alnum_words.simps) simp

lemma alnum_words_dropWhile:
  "alnum_words (dropWhile (\<lambda>x. \<not> is_lower_alnum x) s) = alnum_words s"
  by (induction s) (simp_all add: alnum_words_skip)

lemma dropWhile_Cons_hd:
  "dropWhile P xs = y # ys \<Longrightarrow> \<not> P y"
  by (metis hd_dropWhile list.sel(1) list.distinct(1))

lemma alnum_words_nonempty: "is_lower_alnum c \<Longrightarrow> alnum_words (c # cs) \<noteq> []"
  by (simp add: alnum_words_word)

lemma join_dash_Cons: "ws \<noteq> [] \<Longrightarrow> join_dash (w # ws) = w @ CHR ''-'' # join_dash ws"
  by (cases ws) simp_all

lemma strip_dash_then_word:
  "is_lower_alnum c \<Longrightarrow>
   strip_dashes_from False (CHR ''-'' # replace_non_alnum (c # cs))
     = CHR ''-'' # strip_dashes_from False (replace_non_alnum (c # cs))"
  by (simp add: lower_alnum_not_dash)

lemma strip_replace_word:
  "is_lower_alnum c \<Longrightarrow>
   strip_dashes_from b (replace_non_alnum (c # cs)) = join_dash (alnum_words (c # cs))"
proof (induction "length cs" arbitrary: b c cs rule: less_induct)
  case less
  define w where "w = c # takeWhile is_lower_alnum cs"
  define r where "r = dropWhile is_lower_alnum cs"
  have w: "list_all is_lower_alnum w"
    using less.prems by (simp add: w_def list_all_iff) (meson set_takeWhileD)
  have wd: "list_all (\<lambda>c. \<not> is_dash c) w"
    using w by (auto simp: list_all_iff lower_alnum_not_dash)
  have wne: "w \<noteq> []" by (simp add: w_def)
  have split: "c # cs = w @ r" by (simp add: w_def r_def)
  have rlen: "length r \<le> length cs" unfolding r_def by (rule length_dropWhile_le)
  have R: "replace_non_alnum (c # cs) = w @ replace_non_alnum r"
    unfolding split using w by (rule replace_alnum_prefix)
  have S: "strip_dashes_from b (replace_non_alnum (c # cs)) = w @ strip_dashes_from False (replace_non_alnum r)"
    unfolding R using wd wne by (rule strip_no_dash_prefix)
  have W: "alnum_words (c # cs) = w # alnum_words r"
    unfolding w_def r_def using less.prems by (rule alnum_words_word)
  show ?case
  proof (cases r)
    case Nil
    show ?thesis unfolding S W Nil by (simp add: alnum_words_Nil)
  next
    case (Cons n r')
    have n: "\<not> is_lower_alnum n"
      using Cons dropWhile_Cons_hd[of is_lower_alnum cs n r'] by (simp add: r_def)
    define r'' where "r'' = dropWhile (\<lambda>x. \<not> is_lower_alnum x) r'"
    have Rr: "replace_non_alnum r = CHR ''-'' # replace_non_alnum r''"
      unfolding Cons r''_def using n by simp
    have Wr: "alnum_words r = alnum_words r''"
      unfolding Cons r''_def using n by (simp add: alnum_words_skip alnum_words_dropWhile)
    have r''len: "length r'' \<le> length r'" unfolding r''_def by (rule length_dropWhile_le)
    show ?thesis
    proof (cases r'')
      case Nil
      show ?thesis unfolding S W Rr Wr Nil by (simp add: alnum_words_Nil is_dash_def)
    next
      case (Cons c' cs')
      have "\<not> \<not> is_lower_alnum c'"
        using Cons dropWhile_Cons_hd[of "\<lambda>x. \<not> is_lower_alnum x" r' c' cs'] by (simp add: r''_def)
      then have c': "is_lower_alnum c'" by simp
      have "length cs' < length cs"
        using rlen r''len Cons \<open>r = n # r'\<close> by simp
      then have IH: "strip_dashes_from False (replace_non_alnum (c' # cs')) = join_dash (alnum_words (c' # cs'))"
        using c' by (rule less.hyps)
      have "strip_dashes_from False (replace_non_alnum r)
            = CHR ''-'' # join_dash (alnum_words (c' # cs'))"
        unfolding Rr Cons strip_dash_then_word[OF c'] IH by simp
      moreover have "join_dash (w # alnum_words (c' # cs')) = w @ CHR ''-'' # join_dash (alnum_words (c' # cs'))"
        using alnum_words_nonempty[OF c'] by (rule join_dash_Cons)
      ultimately show ?thesis unfolding S W Wr Cons by simp
    qed
  qed
qed

lemma strip_replace_words:
  "strip_dashes (replace_non_alnum t) = join_dash (alnum_words t)"
proof (cases t)
  case Nil
  then show ?thesis by (simp add: strip_dashes_def alnum_words_Nil)
next
  case (Cons c cs)
  show ?thesis
  proof (cases "is_lower_alnum c")
    case True
    then show ?thesis unfolding Cons strip_dashes_def by (rule strip_replace_word)
  next
    case False
    define t' where "t' = dropWhile (\<lambda>x. \<not> is_lower_alnum x) cs"
    have W: "alnum_words t = alnum_words t'"
      unfolding Cons t'_def using False by (simp add: alnum_words_skip alnum_words_dropWhile)
    have R: "strip_dashes (replace_non_alnum t) = strip_dashes_from False (dropWhile is_dash (replace_non_alnum t'))"
      unfolding Cons t'_def strip_dashes_def using False by (simp add: is_dash_def)
    show ?thesis
    proof (cases t')
      case Nil
      show ?thesis unfolding R W Nil by (simp add: alnum_words_Nil)
    next
      case (Cons c' cs')
      have "\<not> \<not> is_lower_alnum c'"
        using Cons dropWhile_Cons_hd[of "\<lambda>x. \<not> is_lower_alnum x" cs c' cs'] by (simp add: t'_def)
      then have c': "is_lower_alnum c'" by simp
      have nd: "\<not> is_dash c'" using c' by (rule lower_alnum_not_dash)
      have "dropWhile is_dash (replace_non_alnum (c' # cs')) = replace_non_alnum (c' # cs')"
        using c' nd by simp
      then show ?thesis unfolding R W Cons using strip_replace_word[OF c', of False cs'] by simp
    qed
  qed
qed


lemma alnum_words_no_alnum:
  "list_all (\<lambda>x. \<not> is_lower_alnum x) n \<Longrightarrow> alnum_words n = []"
  by (induction n) (simp_all add: alnum_words_Nil alnum_words_skip)

lemma alnum_words_append_no_alnum:
  "list_all (\<lambda>x. \<not> is_lower_alnum x) n \<Longrightarrow> alnum_words (u @ n) = alnum_words u"
proof (induction "length u" arbitrary: u rule: less_induct)
  case less
  show ?case
  proof (cases u)
    case Nil
    then show ?thesis using less.prems by (simp add: alnum_words_no_alnum alnum_words_Nil)
  next
    case (Cons c cs)
    show ?thesis
    proof (cases "is_lower_alnum c")
      case False
      have "alnum_words (cs @ n) = alnum_words cs"
        using less.prems by (intro less.hyps) (simp add: Cons)
      then show ?thesis using False by (simp add: Cons alnum_words_skip)
    next
      case True
      define r where "r = dropWhile is_lower_alnum cs"
      have tn: "takeWhile is_lower_alnum n = []" "dropWhile is_lower_alnum n = n"
        using less.prems by (cases n; simp)+
      show ?thesis
      proof (cases "r = []")
        case True
        then have all: "\<forall>x\<in>set cs. is_lower_alnum x" by (simp add: r_def)
        then have e: "takeWhile is_lower_alnum (cs @ n) = cs" "dropWhile is_lower_alnum (cs @ n) = n"
          "takeWhile is_lower_alnum cs = cs" "dropWhile is_lower_alnum cs = []"
          by (simp_all add: tn takeWhile_append2 dropWhile_append2)
        have "alnum_words ((c # cs) @ n) = (c # cs) # alnum_words n"
          using alnum_words_word[OF \<open>is_lower_alnum c\<close>, of "cs @ n"] by (simp only: e append_Cons)
        moreover have "alnum_words (c # cs) = (c # cs) # alnum_words []"
          using alnum_words_word[OF \<open>is_lower_alnum c\<close>, of cs] by (simp only: e)
        ultimately show ?thesis
          using less.prems by (simp only: Cons alnum_words_no_alnum alnum_words_Nil)
      next
        case False
        then have ex: "\<exists>x\<in>set cs. \<not> is_lower_alnum x" by (simp add: r_def)
        then have t: "takeWhile is_lower_alnum (cs @ n) = takeWhile is_lower_alnum cs"
          and d: "dropWhile is_lower_alnum (cs @ n) = r @ n"
          by (auto simp: r_def takeWhile_append1 dropWhile_append1 dest: bspec)
        have "length r < length u"
          using length_dropWhile_le[of is_lower_alnum cs] by (simp add: r_def Cons)
        then have "alnum_words (r @ n) = alnum_words r"
          using less.prems by (rule less.hyps)
        then show ?thesis
          using \<open>is_lower_alnum c\<close> t d by (simp add: Cons alnum_words_word r_def)
      qed
    qed
  qed
qed

lemma all_space_no_alnum: "list_all is_space n \<Longrightarrow> list_all (\<lambda>x. \<not> is_lower_alnum x) n"
  by (induction n) (simp_all add: space_not_lower_alnum)

lemma alnum_words_drop_spaces: "alnum_words (dropWhile is_space s) = alnum_words s"
  by (induction s) (simp_all add: alnum_words_skip space_not_lower_alnum)

lemma alnum_words_trim: "alnum_words (trim s) = alnum_words s"
proof -
  define u where "u = dropWhile is_space s"
  define n where "n = rev (takeWhile is_space (rev u))"
  have "trim s @ n = rev (takeWhile is_space (rev u) @ dropWhile is_space (rev u))"
    by (simp only: trim_def u_def n_def rev_append)
  also have "\<dots> = u" by (simp only: takeWhile_dropWhile_id rev_rev_ident)
  finally have u: "u = trim s @ n" by (rule sym)
  have "list_all is_space n"
    by (simp add: n_def list_all_iff) (meson set_takeWhileD)
  then have "alnum_words (trim s @ n) = alnum_words (trim s)"
    by (intro alnum_words_append_no_alnum all_space_no_alnum)
  then show ?thesis using u alnum_words_drop_spaces[of s] by (simp add: u_def)
qed

lemma slugify_words: "slugify v = join_dash (alnum_words (toLowerCase v))"
  by (simp add: slugify_def strip_replace_words toLowerCase_trim alnum_words_trim)

lemma slugify_without_trim: "slugify v = strip_dashes (replace_non_alnum (toLowerCase v))"
  by (simp add: slugify_words strip_replace_words)

subsection \<open>The shape of the joined words\<close>

lemma alnum_words_ok: "list_all word_ok (alnum_words s)"
proof (induction s rule: alnum_words.induct)
  case (1 s)
  show ?case
  proof (cases "dropWhile (\<lambda>x. \<not> is_lower_alnum x) s")
    case Nil
    show ?thesis by (subst alnum_words.simps) (simp only: Nil list.case list.pred_inject)
  next
    case (Cons c cs)
    have "\<not> \<not> is_lower_alnum c" using Cons by (rule dropWhile_Cons_hd)
    moreover have "list_all is_lower_alnum (takeWhile is_lower_alnum cs)"
      by (simp add: list_all_iff) (meson set_takeWhileD)
    moreover have "list_all word_ok (alnum_words (dropWhile is_lower_alnum cs))"
      using Cons by (rule 1)
    ultimately show ?thesis
      by (subst alnum_words.simps) (simp add: Cons word_ok_def)
  qed
qed

lemma join_dash_chars:
  "list_all word_ok ws \<Longrightarrow> list_all (\<lambda>c. is_lower_alnum c \<or> is_dash c) (join_dash ws)"
  by (induction ws rule: join_dash.induct) (auto simp: word_ok_def list_all_iff is_dash_def)

lemma join_dash_ends:
  "list_all word_ok ws \<Longrightarrow> ws \<noteq> [] \<Longrightarrow>
   join_dash ws \<noteq> [] \<and> is_lower_alnum (hd (join_dash ws)) \<and> is_lower_alnum (last (join_dash ws))"
proof (induction ws rule: join_dash.induct)
  case 1
  then show ?case by simp
next
  case (2 w)
  then show ?case by (cases w) (auto simp: word_ok_def list_all_iff)
next
  case (3 w v ws)
  then show ?case by (cases w) (auto simp: word_ok_def)
qed

lemma dropWhile_id: "xs = [] \<or> \<not> P (hd xs) \<Longrightarrow> dropWhile P xs = xs"
  by (cases xs) auto

lemma join_dash_hd:
  "list_all word_ok ws \<Longrightarrow> dropWhile is_dash (join_dash ws) = join_dash ws"
  by (cases "ws = []") (auto intro!: dropWhile_id dest: join_dash_ends lower_alnum_not_dash)

lemma join_dash_rev_hd:
  assumes "list_all word_ok ws"
  shows "dropWhile is_dash (rev (join_dash ws)) = rev (join_dash ws)"
proof (cases "ws = []")
  case True
  then show ?thesis by simp
next
  case False
  with assms have "join_dash ws \<noteq> []" "is_lower_alnum (last (join_dash ws))"
    using join_dash_ends by blast+
  then have "rev (join_dash ws) = [] \<or> \<not> is_dash (hd (rev (join_dash ws)))"
    by (simp add: hd_rev lower_alnum_not_dash)
  then show ?thesis by (rule dropWhile_id)
qed

lemma double_dash_append_word:
  "list_all is_lower_alnum w \<Longrightarrow> w \<noteq> [] \<Longrightarrow>
   double_dash (w @ CHR ''-'' # x) = double_dash (CHR ''-'' # x)"
proof (induction w)
  case Nil
  then show ?case by simp
next
  case (Cons c w)
  show ?case
  proof (cases w)
    case Nil
    with Cons.prems show ?thesis by (simp add: lower_alnum_not_dash)
  next
    case (Cons c' w')
    with Cons.prems Cons.IH \<open>w = c' # w'\<close> show ?thesis by (simp add: lower_alnum_not_dash)
  qed
qed

lemma double_dash_word: "list_all is_lower_alnum w \<Longrightarrow> \<not> double_dash w"
  by (induction w rule: double_dash.induct) (auto simp: lower_alnum_not_dash)

lemma join_dash_no_double:
  "list_all word_ok ws \<Longrightarrow> \<not> double_dash (join_dash ws)"
proof (induction ws rule: join_dash.induct)
  case 1
  then show ?case by simp
next
  case (2 w)
  then show ?case by (simp add: word_ok_def double_dash_word)
next
  case (3 w v ws)
  then have w: "list_all is_lower_alnum w" "w \<noteq> []" and v: "word_ok v"
    and IH: "\<not> double_dash (join_dash (v # ws))" by (simp_all add: word_ok_def)
  have "join_dash (v # ws) \<noteq> [] \<and> is_lower_alnum (hd (join_dash (v # ws)))"
    using "3.prems" join_dash_ends[of "v # ws"] by simp
  then obtain a x where ax: "join_dash (v # ws) = a # x" "\<not> is_dash a"
    by (cases "join_dash (v # ws)") (auto dest: lower_alnum_not_dash)
  have "double_dash (join_dash (w # v # ws)) = double_dash (CHR ''-'' # join_dash (v # ws))"
    using w by (simp add: double_dash_append_word)
  also have "\<dots> = double_dash (join_dash (v # ws))" using ax by simp
  finally show ?case using IH by simp
qed

text \<open>
  Claim C2. For every title, \<open>slugify\<close> gives the lowercased title with each maximal run
  of code units outside \<open>[a-z0-9]\<close> replaced by one dash and the dashes at both ends
  removed (the trimming that the code does first changes nothing), which is to say the
  maximal runs of \<open>[a-z0-9]\<close> of the lowercased title joined by single dashes. So the slug
  is made of \<open>[a-z0-9]\<close> and dashes only, has no two dashes in a row, and neither starts
  nor ends with a dash. The two examples of the specification are as it says.
\<close>

theorem slugify_shape:
  "slugify v = join_dash (alnum_words (toLowerCase v))
   \<and> slugify v = strip_dashes (replace_non_alnum (toLowerCase v))
   \<and> list_all (\<lambda>c. is_lower_alnum c \<or> is_dash c) (slugify v)
   \<and> \<not> double_dash (slugify v)
   \<and> dropWhile is_dash (slugify v) = slugify v
   \<and> dropWhile is_dash (rev (slugify v)) = rev (slugify v)
   \<and> slugify ''Hello, World!'' = ''hello-world''
   \<and> slugify ''  ---Foo Bar---  '' = ''foo-bar''"
proof -
  have ok: "list_all word_ok (alnum_words (toLowerCase v))" by (rule alnum_words_ok)
  have "slugify ''Hello, World!'' = ''hello-world''" by code_simp
  moreover have "slugify ''  ---Foo Bar---  '' = ''foo-bar''" by code_simp
  ultimately show ?thesis
    using join_dash_chars[OF ok] join_dash_no_double[OF ok] join_dash_hd[OF ok] join_dash_rev_hd[OF ok]
    by (simp add: slugify_words[symmetric] slugify_without_trim[symmetric])
qed

theorem slugify_shape_witness:
  "slugify ''Next.js Conf 2025!'' = ''next-js-conf-2025''
   \<and> alnum_words (toLowerCase ''Next.js Conf 2025!'') = [''next'', ''js'', ''conf'', ''2025'']
   \<and> list_all (\<lambda>c. is_lower_alnum c \<or> is_dash c) ''next-js-conf-2025''
   \<and> \<not> double_dash ''next-js-conf-2025''"
proof -
  note t = slugify_shape[of "''Next.js Conf 2025!''"]
  have w: "alnum_words (toLowerCase ''Next.js Conf 2025!'') = [''next'', ''js'', ''conf'', ''2025'']"
    by code_simp
  have j: "join_dash [''next'', ''js'', ''conf'', ''2025''] = ''next-js-conf-2025''"
    by code_simp
  from t have "slugify ''Next.js Conf 2025!'' = join_dash (alnum_words (toLowerCase ''Next.js Conf 2025!''))"
    by (rule conjunct1)
  then have e: "slugify ''Next.js Conf 2025!'' = ''next-js-conf-2025''"
    by (simp only: w j)
  from t have "list_all (\<lambda>c. is_lower_alnum c \<or> is_dash c) (slugify ''Next.js Conf 2025!'')"
    and "\<not> double_dash (slugify ''Next.js Conf 2025!'')"
    by blast+
  then have "list_all (\<lambda>c. is_lower_alnum c \<or> is_dash c) ''next-js-conf-2025''"
    and "\<not> double_dash ''next-js-conf-2025''"
    unfolding e .
  with e w show ?thesis by blast
qed

lemma slugify_no_alnum:
  "list_all (\<lambda>c. \<not> is_lower_alnum (lower_char c)) t \<Longrightarrow> slugify t = []"
proof -
  assume "list_all (\<lambda>c. \<not> is_lower_alnum (lower_char c)) t"
  then have "list_all (\<lambda>x. \<not> is_lower_alnum x) (toLowerCase t)"
    by (simp add: toLowerCase_def list_all_iff)
  then show ?thesis by (simp add: slugify_words alnum_words_no_alnum)
qed

section \<open>Event model: the date\<close>









lemma takeWhile_all_then_stop:
  "list_all P l \<Longrightarrow> \<not> P x \<Longrightarrow> takeWhile P (l @ x # r) = l"
  by (induction l) simp_all


lemma digit_char_0: "digit_char 0 = CHR ''0''"
  by code_simp

lemma nat_toString_1: "n < 10 \<Longrightarrow> nat_toString n = [digit_char n]"
  by (subst nat_toString.simps) simp

lemma nat_toString_2: "10 \<le> n \<Longrightarrow> n < 100 \<Longrightarrow> nat_toString n = [digit_char (n div 10), digit_char (n mod 10)]"
  by (subst nat_toString.simps) (simp add: nat_toString_1)






lemma pad_nat_2: "n < 100 \<Longrightarrow> pad_nat 2 n = two_digits n"
proof (cases "n < 10")
  case True
  then show ?thesis
    by (simp add: pad_nat_def padStart_def two_digits_def nat_toString_1 digit_char_0)
next
  case False
  assume "n < 100"
  with False have "nat_toString n = [digit_char (n div 10), digit_char (n mod 10)]"
    by (intro nat_toString_2) simp_all
  then show ?thesis by (simp add: pad_nat_def padStart_def two_digits_def)
qed















section \<open>Event model: the time\<close>

lemma colon_facts: "\<not> is_digit CHR '':''" "\<not> is_space CHR '':''"
  by (simp_all add: is_digit_def is_space_def code_def)

lemma space_not_digit: "is_space c \<Longrightarrow> \<not> is_digit c"
  by (auto simp: is_space_def is_digit_def)

lemma space_not_colon: "is_space c \<Longrightarrow> c \<noteq> CHR '':''"
  using colon_facts(2) by auto

lemma period_facts:
  "is_period a b \<Longrightarrow> \<not> is_digit a \<and> \<not> is_space a \<and> a \<noteq> CHR '':''"
  by (auto simp: is_period_def is_digit_def is_space_def code_def)

lemma is_period_am_pm: "is_period CHR ''a'' CHR ''m''" "is_period CHR ''p'' CHR ''m''"
  by (simp_all add: is_period_def)

lemma match_minutes_sound:
  "match_minutes r = (g, r') \<Longrightarrow>
   r = (case g of None \<Rightarrow> [] | Some mm \<Rightarrow> CHR '':'' # mm) @ r'
   \<and> (case g of None \<Rightarrow> True | Some mm \<Rightarrow> length mm = 2 \<and> list_all is_digit mm)"
  by (auto simp: match_minutes_def split: list.splits if_splits)

lemma match_period_sound:
  "match_period r = (g, r') \<Longrightarrow>
   r = (case g of None \<Rightarrow> [] | Some pp \<Rightarrow> pp) @ r'
   \<and> (case g of None \<Rightarrow> True | Some pp \<Rightarrow> \<exists>a b. pp = [a, b] \<and> is_period a b)"
  by (auto simp: match_period_def split: list.splits if_splits)

lemma digit_prefix:
  "takeWhile is_digit (take 2 s) = take (length (takeWhile is_digit (take 2 s))) s"
proof -
  have "length (takeWhile is_digit (take 2 s)) \<le> 2"
    using length_takeWhile_le[of is_digit "take 2 s"] by simp
  then have "take (length (takeWhile is_digit (take 2 s))) (take 2 s)
             = take (length (takeWhile is_digit (take 2 s))) s"
    by (simp add: min_def)
  then show ?thesis using takeWhile_eq_take[of is_digit "take 2 s"] by simp
qed

lemma timeRegex_match_sound:
  assumes "timeRegex_match s = Some (g1, g2, g3)"
  shows "\<exists>ws. s = time_text g1 g2 ws g3
          \<and> g1 \<noteq> [] \<and> length g1 \<le> 2 \<and> list_all is_digit g1
          \<and> (case g2 of None \<Rightarrow> True | Some mm \<Rightarrow> length mm = 2 \<and> list_all is_digit mm)
          \<and> list_all is_space ws
          \<and> (case g3 of None \<Rightarrow> True | Some pp \<Rightarrow> \<exists>a b. pp = [a, b] \<and> is_period a b)"
proof -
  define h where "h = takeWhile is_digit (take 2 s)"
  obtain m r2 where mm: "match_minutes (drop (length h) s) = (m, r2)" by (cases "match_minutes (drop (length h) s)")
  obtain p r4 where mp: "match_period (dropWhile is_space r2) = (p, r4)" by (cases "match_period (dropWhile is_space r2)")
  from assms have res: "h \<noteq> []" "r4 = []" "g1 = h" "g2 = m" "g3 = p"
    by (auto simp: timeRegex_match_def Let_def h_def[symmetric] mm mp split: if_splits)
  have hp: "h = take (length h) s" unfolding h_def by (rule digit_prefix)
  have s1: "s = h @ drop (length h) s"
    using append_take_drop_id[of "length h" s] hp by simp
  have hl: "length h \<le> 2"
    using length_takeWhile_le[of is_digit "take 2 s"] by (simp add: h_def)
  have hd: "list_all is_digit h"
    by (simp add: h_def list_all_iff) (meson set_takeWhileD)
  note ms = match_minutes_sound[OF mm]
  note ps = match_period_sound[OF mp]
  define ws where "ws = takeWhile is_space r2"
  have wsd: "list_all is_space ws"
    by (simp add: ws_def list_all_iff) (meson set_takeWhileD)
  have r2: "r2 = ws @ dropWhile is_space r2" by (simp add: ws_def)
  have "s = h @ (case m of None \<Rightarrow> [] | Some mm \<Rightarrow> CHR '':'' # mm) @ ws
              @ (case p of None \<Rightarrow> [] | Some pp \<Rightarrow> pp)"
    using s1 ms[THEN conjunct1] r2 ps[THEN conjunct1] res(2) by (metis append_Nil2)
  then have "s = time_text g1 g2 ws g3" by (simp add: time_text_def res)
  then show ?thesis using res hl hd ms ps wsd by blast
qed


lemma dropWhile_all_then_tail:
  "list_all Q ws \<Longrightarrow> P = [] \<or> \<not> Q (hd P) \<Longrightarrow> dropWhile Q (ws @ P) = P"
  by (induction ws) (auto simp: dropWhile_id)

lemma period_text_cases:
  "(case p of None \<Rightarrow> True | Some pp \<Rightarrow> pp = ''am'' \<or> pp = ''pm'') \<Longrightarrow>
   match_period (case p of None \<Rightarrow> [] | Some pp \<Rightarrow> pp) = (p, [])"
  by (auto simp: match_period_def is_period_def split: option.splits)

lemma period_text_head:
  "(case p of None \<Rightarrow> True | Some pp \<Rightarrow> pp = ''am'' \<or> pp = ''pm'') \<Longrightarrow>
   (case p of None \<Rightarrow> [] | Some pp \<Rightarrow> pp) = []
   \<or> (\<not> is_digit (hd (case p of None \<Rightarrow> [] | Some pp \<Rightarrow> pp))
      \<and> \<not> is_space (hd (case p of None \<Rightarrow> [] | Some pp \<Rightarrow> pp))
      \<and> hd (case p of None \<Rightarrow> [] | Some pp \<Rightarrow> pp) \<noteq> CHR '':'')"
  by (auto simp: is_digit_def is_space_def code_def split: option.splits)

lemma spaces_then_period_head:
  assumes "list_all is_space ws"
    and "(case p of None \<Rightarrow> True | Some pp \<Rightarrow> pp = ''am'' \<or> pp = ''pm'')"
  shows "ws @ (case p of None \<Rightarrow> [] | Some pp \<Rightarrow> pp) = []
         \<or> (\<not> is_digit (hd (ws @ (case p of None \<Rightarrow> [] | Some pp \<Rightarrow> pp)))
            \<and> hd (ws @ (case p of None \<Rightarrow> [] | Some pp \<Rightarrow> pp)) \<noteq> CHR '':'')"
proof (cases ws)
  case Nil
  then show ?thesis using period_text_head[OF assms(2)] by auto
next
  case (Cons c cs)
  with assms(1) have "is_space c" by simp
  then show ?thesis using Cons by (simp add: space_not_digit space_not_colon)
qed

lemma match_minutes_none:
  "r = [] \<or> hd r \<noteq> CHR '':'' \<Longrightarrow> match_minutes r = (None, r)"
  by (auto simp: match_minutes_def split: list.splits)

lemma match_minutes_some:
  "is_digit x \<Longrightarrow> is_digit y \<Longrightarrow> match_minutes (CHR '':'' # [x, y] @ r) = (Some [x, y], r)"
  by (simp add: match_minutes_def)

lemma hour_digits:
  assumes "h \<noteq> []" "length h \<le> 2" "list_all is_digit h" "r = [] \<or> \<not> is_digit (hd r)"
  shows "takeWhile is_digit (take 2 (h @ r)) = h"
proof -
  from assms(1,2) consider a where "h = [a]" | a b where "h = [a, b]"
    by (cases h rule: list.exhaust; cases "tl h" rule: list.exhaust; cases "tl (tl h)") auto
  then show ?thesis
  proof cases
    case 1
    with assms(3,4) show ?thesis by (cases r) (auto simp: numeral_2_eq_2)
  next
    case 2
    with assms(3) show ?thesis by (simp add: numeral_2_eq_2)
  qed
qed

lemma timeRegex_match_complete:
  assumes "time_parts_ok h m ws p"
  shows "timeRegex_match (time_text h m ws p) = Some (h, m, p)"
proof -
  define P where "P = (case p of None \<Rightarrow> [] | Some pp \<Rightarrow> pp)"
  define M where "M = (case m of None \<Rightarrow> [] | Some mm \<Rightarrow> CHR '':'' # mm)"
  from assms have h: "h \<noteq> []" "length h \<le> 2" "list_all is_digit h"
    and m: "(case m of None \<Rightarrow> True | Some mm \<Rightarrow> length mm = 2 \<and> list_all is_digit mm)"
    and ws: "list_all is_space ws"
    and p: "(case p of None \<Rightarrow> True | Some pp \<Rightarrow> pp = ''am'' \<or> pp = ''pm'')"
    by (simp_all add: time_parts_ok_def)
  have s: "time_text h m ws p = h @ (M @ ws @ P)" by (simp add: time_text_def M_def P_def)
  have wsP: "ws @ P = [] \<or> (\<not> is_digit (hd (ws @ P)) \<and> hd (ws @ P) \<noteq> CHR '':'')"
    unfolding P_def using ws p by (rule spaces_then_period_head)
  have tail: "M @ ws @ P = [] \<or> \<not> is_digit (hd (M @ ws @ P))"
  proof (cases m)
    case None
    then show ?thesis using wsP by (auto simp: M_def)
  next
    case (Some mm)
    then show ?thesis by (simp add: M_def colon_facts)
  qed
  have g1: "takeWhile is_digit (take 2 (h @ (M @ ws @ P))) = h"
    using h tail by (rule hour_digits)
  have mm: "match_minutes (M @ ws @ P) = (m, ws @ P)"
  proof (cases m)
    case None
    then have "M @ ws @ P = ws @ P" by (simp add: M_def)
    moreover have "match_minutes (ws @ P) = (None, ws @ P)"
      using wsP by (intro match_minutes_none) auto
    ultimately show ?thesis using None by simp
  next
    case (Some mm)
    with m have "length mm = 2" "list_all is_digit mm" by simp_all
    then obtain x y where xy: "mm = [x, y]" "is_digit x" "is_digit y"
      by (cases mm rule: list.exhaust; cases "tl mm" rule: list.exhaust; cases "tl (tl mm)") auto
    have "match_minutes (CHR '':'' # [x, y] @ (ws @ P)) = (Some [x, y], ws @ P)"
      using xy(2,3) by (rule match_minutes_some)
    then show ?thesis using Some xy(1) by (simp add: M_def)
  qed
  have dw: "dropWhile is_space (ws @ P) = P"
    using ws period_text_head[OF p] unfolding P_def[symmetric]
    by (intro dropWhile_all_then_tail) auto
  have mp: "match_period P = (p, [])"
    unfolding P_def using p by (rule period_text_cases)
  show ?thesis
    unfolding s timeRegex_match_def g1 Let_def
    by (simp add: mm dw mp h(1))
qed


lemma upper_APM: "is_upper CHR ''A''" "is_upper CHR ''P''" "is_upper CHR ''M''"
  by (simp_all add: is_upper_def code_def)

lemma lowercase_period:
  "\<not> is_upper a \<Longrightarrow> \<not> is_upper b \<Longrightarrow> is_period a b \<Longrightarrow> [a, b] = ''am'' \<or> [a, b] = ''pm''"
  using upper_APM by (auto simp: is_period_def)

lemma toLowerCase_no_upper: "c \<in> set (toLowerCase x) \<Longrightarrow> \<not> is_upper c"
  by (auto simp: toLowerCase_def lower_char_not_upper)

lemma parseInt10_one: "parseInt10 [a] = int (code a - 48)"
  by (simp add: parseInt10_def)

lemma parseInt10_two: "parseInt10 [a, b] = 10 * int (code a - 48) + int (code b - 48)"
  by (simp add: parseInt10_def)

lemma parseInt10_range:
  assumes "h \<noteq> []" "length h \<le> 2" "list_all is_digit h"
  shows "0 \<le> parseInt10 h \<and> parseInt10 h < 100"
proof -
  from assms(1,2) consider a where "h = [a]" | a b where "h = [a, b]"
    by (cases h rule: list.exhaust; cases "tl h" rule: list.exhaust; cases "tl (tl h)") auto
  then show ?thesis
  proof cases
    case 1
    with assms(3) show ?thesis by (auto simp: parseInt10_one is_digit_def)
  next
    case 2
    with assms(3) show ?thesis by (auto simp: parseInt10_two is_digit_def)
  qed
qed

lemma pad_two_digits:
  "0 \<le> x \<Longrightarrow> x < 100 \<Longrightarrow> padStart 2 CHR ''0'' (int_toString x) = two_digits (nat x)"
  using pad_nat_2[of "nat x"] by (simp add: int_toString_def pad_nat_def)

lemma normalizeTime_of_match:
  "timeRegex_match (toLowerCase (trim v)) = Some (h, m, p) \<Longrightarrow>
   normalizeTime v =
      (if (case m of None \<Rightarrow> 0 | Some mm \<Rightarrow> parseInt10 mm) < 0
          \<or> (case m of None \<Rightarrow> 0 | Some mm \<Rightarrow> parseInt10 mm) > 59 then None
       else (case p of
               Some q \<Rightarrow>
                 if parseInt10 h < 1 \<or> parseInt10 h > 12 then None
                 else Some (padStart 2 CHR ''0'' (int_toString
                              (if q = ''pm'' \<and> parseInt10 h \<noteq> 12 then parseInt10 h + 12
                               else if q = ''am'' \<and> parseInt10 h = 12 then 0 else parseInt10 h))
                            @ '':'' @ padStart 2 CHR ''0'' (int_toString
                                (case m of None \<Rightarrow> 0 | Some mm \<Rightarrow> parseInt10 mm)))
             | None \<Rightarrow>
                 if parseInt10 h < 0 \<or> parseInt10 h > 23 then None
                 else Some (padStart 2 CHR ''0'' (int_toString (parseInt10 h)) @ '':''
                            @ padStart 2 CHR ''0'' (int_toString
                                (case m of None \<Rightarrow> 0 | Some mm \<Rightarrow> parseInt10 mm)))))"
  unfolding normalizeTime_def Let_def by simp

lemma normalizeTime_matched:
  assumes eq: "toLowerCase (trim v) = time_text h m ws p" and ok: "time_parts_ok h m ws p"
  shows "normalizeTime v =
        (let hours = parseInt10 h; minutes = (case m of None \<Rightarrow> 0 | Some mm \<Rightarrow> parseInt10 mm)
         in if minutes < 0 \<or> 59 < minutes
               \<or> (p \<noteq> None \<and> (hours < 1 \<or> 12 < hours))
               \<or> (p = None \<and> (hours < 0 \<or> 23 < hours))
            then None
            else Some (two_digits (nat (hour24 hours p)) @ '':'' @ two_digits (nat minutes)))"
proof -
  let ?hours = "parseInt10 h"
  let ?minutes = "case m of None \<Rightarrow> 0 | Some mm \<Rightarrow> parseInt10 mm"
  have match: "timeRegex_match (toLowerCase (trim v)) = Some (h, m, p)"
    unfolding eq using ok by (rule timeRegex_match_complete)
  note nt = normalizeTime_of_match[OF match]
  from ok have hr: "0 \<le> ?hours \<and> ?hours < 100"
    by (intro parseInt10_range) (simp_all add: time_parts_ok_def)
  have mr: "0 \<le> ?minutes \<and> ?minutes < 100"
  proof (cases m)
    case None
    then show ?thesis by simp
  next
    case (Some mm)
    with ok have "mm \<noteq> []" "length mm \<le> 2" "list_all is_digit mm"
      by (auto simp: time_parts_ok_def)
    then show ?thesis using Some by (simp add: parseInt10_range)
  qed
  have mpad: "padStart 2 CHR ''0'' (int_toString ?minutes) = two_digits (nat ?minutes)"
    using mr by (simp add: pad_two_digits)
  show ?thesis
  proof (cases p)
    case None
    have "padStart 2 CHR ''0'' (int_toString ?hours) = two_digits (nat ?hours)"
      using hr by (simp add: pad_two_digits)
    then show ?thesis
      unfolding nt Let_def mpad using None by (simp add: hour24_def)
  next
    case (Some q)
    show ?thesis
    proof (cases "?hours < 1 \<or> 12 < ?hours")
      case True
      then show ?thesis
        unfolding nt Let_def using Some by auto
    next
      case False
      then have "0 \<le> hour24 ?hours (Some q) \<and> hour24 ?hours (Some q) < 100"
        by (auto simp: hour24_def)
      then have "padStart 2 CHR ''0'' (int_toString (hour24 ?hours (Some q)))
                   = two_digits (nat (hour24 ?hours (Some q)))"
        by (simp add: pad_two_digits)
      moreover have "(if q = ''pm'' \<and> ?hours \<noteq> 12 then ?hours + 12
                      else if q = ''am'' \<and> ?hours = 12 then 0 else ?hours) = hour24 ?hours (Some q)"
        by (simp add: hour24_def)
      ultimately have "padStart 2 CHR ''0'' (int_toString
                              (if q = ''pm'' \<and> ?hours \<noteq> 12 then ?hours + 12
                               else if q = ''am'' \<and> ?hours = 12 then 0 else ?hours))
                   = two_digits (nat (hour24 ?hours (Some q)))"
        by simp
      then show ?thesis
        unfolding nt Let_def mpad Some using False by simp
    qed
  qed
qed

lemma normalizeTime_unmatched:
  assumes "\<forall>h m ws p. time_parts_ok h m ws p \<longrightarrow> toLowerCase (trim v) \<noteq> time_text h m ws p"
  shows "normalizeTime v = None"
proof (cases "timeRegex_match (toLowerCase (trim v))")
  case None
  then show ?thesis by (simp add: normalizeTime_def)
next
  case (Some g)
  obtain g1 g2 g3 where g: "g = (g1, g2, g3)" by (cases g)
  from timeRegex_match_sound[OF Some[unfolded g]]
  obtain ws where eq: "toLowerCase (trim v) = time_text g1 g2 ws g3"
    and h: "g1 \<noteq> []" "length g1 \<le> 2" "list_all is_digit g1"
    and m: "(case g2 of None \<Rightarrow> True | Some mm \<Rightarrow> length mm = 2 \<and> list_all is_digit mm)"
    and w: "list_all is_space ws"
    and p: "(case g3 of None \<Rightarrow> True | Some pp \<Rightarrow> \<exists>a b. pp = [a, b] \<and> is_period a b)"
    by blast
  have "(case g3 of None \<Rightarrow> True | Some pp \<Rightarrow> pp = ''am'' \<or> pp = ''pm'')"
  proof (cases g3)
    case None
    then show ?thesis by simp
  next
    case (Some pp)
    with p obtain a b where ab: "pp = [a, b]" "is_period a b" by auto
    have "a \<in> set (toLowerCase (trim v))" "b \<in> set (toLowerCase (trim v))"
      unfolding eq time_text_def using Some ab(1) by simp_all
    then have "\<not> is_upper a" "\<not> is_upper b" by (simp_all add: toLowerCase_no_upper)
    then have "[a, b] = ''am'' \<or> [a, b] = ''pm''" using ab(2) by (rule lowercase_period)
    then show ?thesis using Some ab(1) by simp
  qed
  with h m w have "time_parts_ok g1 g2 ws g3" by (simp add: time_parts_ok_def)
  with assms eq show ?thesis by blast
qed

text \<open>
  Claim C1. The grammar is read on the input once trimmed and lowercased, as the code
  does, so the suffix may be written in either case: one or two digits, then optionally a
  colon and two digits, then optional white space, then optionally \<open>am\<close> or \<open>pm\<close>.
  An input of that form gives \<open>null\<close> when the minutes are outside 0 to 59, when there
  is a suffix and the hour is outside 1 to 12, or when there is no suffix and the hour is
  outside 0 to 23; otherwise it gives the hour, converted to the 24-hour clock (12am is
  00, 12pm is 12, any other pm hour has 12 added), and the minutes, two digits each with
  a colon between them. An input that is not of that form gives \<open>null\<close>. The five
  examples of the specification are as it says.
\<close>

theorem normalizeTime_grammar:
  "(\<forall>h m ws p. toLowerCase (trim v) = time_text h m ws p \<and> time_parts_ok h m ws p \<longrightarrow>
      normalizeTime v =
        (let hours = parseInt10 h; minutes = (case m of None \<Rightarrow> 0 | Some mm \<Rightarrow> parseInt10 mm)
         in if minutes < 0 \<or> 59 < minutes
               \<or> (p \<noteq> None \<and> (hours < 1 \<or> 12 < hours))
               \<or> (p = None \<and> (hours < 0 \<or> 23 < hours))
            then None
            else Some (two_digits (nat (hour24 hours p)) @ '':'' @ two_digits (nat minutes))))
   \<and> ((\<forall>h m ws p. time_parts_ok h m ws p \<longrightarrow> toLowerCase (trim v) \<noteq> time_text h m ws p)
        \<longrightarrow> normalizeTime v = None)
   \<and> normalizeTime ''1:30 pm'' = Some ''13:30''
   \<and> normalizeTime ''13:30'' = Some ''13:30''
   \<and> normalizeTime ''12am'' = Some ''00:00''
   \<and> normalizeTime ''25:00'' = None
   \<and> normalizeTime ''13pm'' = None"
proof -
  have "normalizeTime ''1:30 pm'' = Some ''13:30''" by code_simp
  moreover have "normalizeTime ''13:30'' = Some ''13:30''" by code_simp
  moreover have "normalizeTime ''12am'' = Some ''00:00''" by code_simp
  moreover have "normalizeTime ''25:00'' = None" by code_simp
  moreover have "normalizeTime ''13pm'' = None" by code_simp
  ultimately show ?thesis
    using normalizeTime_matched[of v] normalizeTime_unmatched[of v] by (intro conjI allI impI) blast+
qed

text \<open>
  An evening time with spaces around it and a suffix in capitals, and a word that is
  not a time.
\<close>

theorem normalizeTime_grammar_witness:
  "toLowerCase (trim '' 7:05 PM '') = time_text ''7'' (Some ''05'') '' '' (Some ''pm'')
   \<and> time_parts_ok ''7'' (Some ''05'') '' '' (Some ''pm'')
   \<and> normalizeTime '' 7:05 PM '' = Some ''19:05''
   \<and> normalizeTime ''noon'' = None"
proof -
  have eq: "toLowerCase (trim '' 7:05 PM '') = time_text ''7'' (Some ''05'') '' '' (Some ''pm'')"
    by code_simp
  have ok: "time_parts_ok ''7'' (Some ''05'') '' '' (Some ''pm'')"
    by code_simp
  have rhs: "(let hours = parseInt10 ''7'';
                  minutes = (case Some ''05'' of None \<Rightarrow> 0 | Some mm \<Rightarrow> parseInt10 mm)
              in if minutes < 0 \<or> 59 < minutes
                    \<or> (Some ''pm'' \<noteq> None \<and> (hours < 1 \<or> 12 < hours))
                    \<or> (Some ''pm'' = None \<and> (hours < 0 \<or> 23 < hours))
                 then None
                 else Some (two_digits (nat (hour24 hours (Some ''pm''))) @ '':''
                            @ two_digits (nat minutes)))
             = Some ''19:05''"
    by code_simp
  note matched = normalizeTime_grammar[of "'' 7:05 PM ''", THEN conjunct1, rule_format,
      of "''7''" "Some ''05''" "'' ''" "Some ''pm''"]
  have evening: "normalizeTime '' 7:05 PM '' = Some ''19:05''"
    using matched[OF conjI[OF eq ok]] rhs by (rule trans)
  have lt: "toLowerCase (trim ''noon'') = ''noon''" by code_simp
  have nd: "\<not> is_digit CHR ''n''" by (simp add: is_digit_def code_def)
  have no_form: "\<forall>h m ws p. time_parts_ok h m ws p \<longrightarrow>
      toLowerCase (trim ''noon'') \<noteq> time_text h m ws p"
  proof (intro allI impI notI)
    fix h m ws p
    assume ok: "time_parts_ok h m ws p"
      and e: "toLowerCase (trim ''noon'') = time_text h m ws p"
    from ok obtain a h' where h: "h = a # h'" "is_digit a"
      by (cases h) (auto simp: time_parts_ok_def)
    from e h(1) have "a = CHR ''n''" by (simp add: lt time_text_def)
    with h(2) nd show False by simp
  qed
  note unmatched = normalizeTime_grammar[of "''noon''", THEN conjunct2, THEN conjunct1]
  from unmatched no_form have "normalizeTime ''noon'' = None" by (rule mp)
  with eq ok evening show ?thesis by (intro conjI)
qed

section \<open>Event model: a title without letters or digits\<close>

lemma normalize_slug: "slug (snd (normalize Date_parse d)) = slug (slug_step d)"
  by (simp add: normalize_def date_step_def time_step_def split: option.splits prod.splits)

text \<open>
  Claim C10. The title \<open>!!!\<close> is a string that is not empty after trimming, so it
  passes the required-field check, and its slug is the empty string; the same holds for
  any title none of whose code units is a letter of A to Z or a to z or a digit. With
  such a title the hook, when it computes the slug, stores an empty slug; saving the
  sample event with the title \<open>!!!\<close> passes and leaves the slug empty.
\<close>

theorem empty_slug_possible:
  "nonempty_string (Str ''!!!'')
   \<and> slugify ''!!!'' = []
   \<and> (list_all (\<lambda>c. \<not> is_lower_alnum (lower_char c)) t \<longrightarrow> slugify t = [])
   \<and> (validate d = None \<and> (isNew d \<or> isModified d ''title'') \<and> title d = Str t
        \<and> list_all (\<lambda>c. \<not> is_lower_alnum (lower_char c)) t
        \<longrightarrow> slug (snd (event_pre_save Date_parse d)) = Str [])
   \<and> event_pre_save sample_parse (sample_event\<lparr>title := Str ''!!!''\<rparr>)
       = (None, sample_event\<lparr>title := Str ''!!!'', slug := Str [], date := Str ''2025-06-13'',
                              time := Str ''09:30''\<rparr>)"
proof -
  have "nonempty_string (Str ''!!!'')" by code_simp
  moreover have "slugify ''!!!'' = []" by code_simp
  moreover have "event_pre_save sample_parse (sample_event\<lparr>title := Str ''!!!''\<rparr>)
       = (None, sample_event\<lparr>title := Str ''!!!'', slug := Str [], date := Str ''2025-06-13'',
                              time := Str ''09:30''\<rparr>)"
    by code_simp
  moreover have "validate d = None \<and> (isNew d \<or> isModified d ''title'') \<and> title d = Str t
        \<and> list_all (\<lambda>c. \<not> is_lower_alnum (lower_char c)) t
        \<longrightarrow> slug (snd (event_pre_save Date_parse d)) = Str []"
    by (simp add: event_pre_save_def normalize_slug slug_step_def slugify_no_alnum)
  ultimately show ?thesis by (simp add: slugify_no_alnum)
qed

text \<open>A title of punctuation and spaces, on a new document that passes validation.\<close>

theorem empty_slug_possible_witness:
  "list_all (\<lambda>c. \<not> is_lower_alnum (lower_char c)) ''?! ... ?!''
   \<and> slugify ''?! ... ?!'' = []
   \<and> validate (sample_event\<lparr>title := Str ''?! ... ?!''\<rparr>) = None
   \<and> isNew (sample_event\<lparr>title := Str ''?! ... ?!''\<rparr>)
   \<and> slug (snd (event_pre_save sample_parse (sample_event\<lparr>title := Str ''?! ... ?!''\<rparr>))) = Str []"
proof -
  let ?d = "sample_event\<lparr>title := Str ''?! ... ?!''\<rparr>"
  have a: "list_all (\<lambda>c. \<not> is_lower_alnum (lower_char c)) ''?! ... ?!''"
    by (simp add: is_lower_alnum_def code_lower_char) (simp add: code_def)
  have v: "validate ?d = None" by code_simp
  have n: "isNew ?d" by code_simp
  have t: "title ?d = Str ''?! ... ?!''" by simp
  note inst = empty_slug_possible[of "''?! ... ?!''" ?d sample_parse]
  note third = inst[THEN conjunct2, THEN conjunct2, THEN conjunct1]
  note fourth = inst[THEN conjunct2, THEN conjunct2, THEN conjunct2, THEN conjunct1]
  have s: "slugify ''?! ... ?!'' = []"
    using third a by (rule mp)
  have "validate ?d = None \<and> (isNew ?d \<or> isModified ?d ''title'')
        \<and> title ?d = Str ''?! ... ?!''
        \<and> list_all (\<lambda>c. \<not> is_lower_alnum (lower_char c)) ''?! ... ?!''"
    using v n t a by (intro conjI disjI1)
  with fourth have "slug (snd (event_pre_save sample_parse ?d)) = Str []"
    by (rule mp)
  with a s v n show ?thesis by (intro conjI)
qed

section \<open>Booking model: the reference check\<close>

text \<open>
  Claim C5. The hook fails with the error \<open>Referenced event does not exist.\<close> exactly
  when the email passes, the reference is present and the existence query for it finds
  no Event; when the email passes, the reference is present and the query finds the Event,
  the hook passes. The same for the save as a whole of a booking that has a reference: it
  fails with that error exactly when the email passes and the query finds nothing, and
  it stores the booking when the email passes and the query finds the Event.
\<close>

theorem booking_reference_check:
  "(booking_pre_save Event_exists b = Some ReferencedEventMissing
      \<longleftrightarrow> email_ok (email b) \<and> (\<exists>eid. eventId b = Some eid \<and> Event_exists eid = NotFound))
   \<and> (email_ok (email b) \<and> eventId b = Some eid \<and> Event_exists eid = Found
        \<longrightarrow> booking_pre_save Event_exists b = None)
   \<and> (save_booking Event_exists (Some eid) raw = Inl ReferencedEventMissing
        \<longleftrightarrow> email_ok (Some (set_email raw)) \<and> Event_exists eid = NotFound)
   \<and> (email_ok (Some (set_email raw)) \<and> Event_exists eid = Found
        \<longrightarrow> save_booking Event_exists (Some eid) raw = Inr (new_booking (Some eid) raw))"
  by (auto simp: booking_pre_save_def save_booking_def new_booking_def required_failures_def
                 Let_def
           split: option.splits exists_result.splits)

text \<open>A booking for the missing event 2, and one for the event 1 that is there.\<close>

theorem booking_reference_check_witness:
  "email_ok (Some (set_email ''USER@Example.com'')) \<and> sample_events 2 = NotFound
   \<and> save_booking sample_events (Some 2) ''USER@Example.com'' = Inl ReferencedEventMissing
   \<and> sample_events 1 = Found
   \<and> save_booking sample_events (Some 1) ''USER@Example.com''
       = Inr \<lparr>eventId = Some 1, email = Some ''user@example.com''\<rparr>"
proof -
  have e: "email_ok (Some (set_email ''USER@Example.com''))" by code_simp
  have n: "sample_events 2 = NotFound" by code_simp
  have f: "sample_events 1 = Found" by code_simp
  have b: "new_booking (Some 1) ''USER@Example.com''
             = \<lparr>eventId = Some 1, email = Some ''user@example.com''\<rparr>"
    by code_simp
  from booking_reference_check[where Event_exists = sample_events and eid = 2
         and raw = "''USER@Example.com''"]
       booking_reference_check[where Event_exists = sample_events and eid = 1
         and raw = "''USER@Example.com''"]
       e n f b
  show ?thesis by simp
qed

section \<open>Booking model: the email\<close>

lemma not_space_at_dot: "not_space_at CHR ''.''"
  by (simp add: not_space_at_def is_space_def code_def)

lemma not_space_at_at: "\<not> not_space_at CHR ''@''"
  by (simp add: not_space_at_def)

lemma dropWhile_all_then_stop:
  "list_all P l \<Longrightarrow> \<not> P x \<Longrightarrow> dropWhile P (l @ x # r) = x # r"
  by (induction l) simp_all

lemma emailRegex_test_shape:
  "emailRegex_test s \<longleftrightarrow>
     (\<exists>l d t. s = l @ ''@'' @ d @ ''.'' @ t \<and> l \<noteq> [] \<and> d \<noteq> [] \<and> t \<noteq> []
        \<and> list_all not_space_at l \<and> list_all not_space_at d \<and> list_all not_space_at t)"
proof
  assume m: "emailRegex_test s"
  define l where "l = takeWhile not_space_at s"
  define r where "r = dropWhile not_space_at s"
  have s: "s = l @ r" by (simp add: l_def r_def)
  from m have lne: "l \<noteq> []" by (simp add: emailRegex_test_def Let_def l_def)
  from m obtain host where r: "r = CHR ''@'' # host" and h: "list_all not_space_at host"
    and ex: "list_ex (\<lambda>i. host ! i = CHR ''.'') [1 ..< length host - 1]"
    by (auto simp: emailRegex_test_def Let_def r_def split: list.splits)
  from ex obtain i where i: "1 \<le> i" "i < length host - 1" "host ! i = CHR ''.''"
    by (auto simp: list_ex_iff)
  then have "i < length host" by simp
  then have host: "host = take i host @ host ! i # drop (Suc i) host"
    by (rule id_take_nth_drop)
  have "list_all not_space_at l" by (simp add: l_def list_all_iff) (meson set_takeWhileD)
  moreover have "list_all not_space_at (take i host)" "list_all not_space_at (drop (Suc i) host)"
    using h by (auto simp: list_all_iff dest: in_set_takeD in_set_dropD)
  moreover have "take i host \<noteq> []" "drop (Suc i) host \<noteq> []" using i by auto
  moreover have "s = l @ ''@'' @ take i host @ ''.'' @ drop (Suc i) host"
    using s r host i(3) by simp
  ultimately show "\<exists>l d t. s = l @ ''@'' @ d @ ''.'' @ t \<and> l \<noteq> [] \<and> d \<noteq> [] \<and> t \<noteq> []
        \<and> list_all not_space_at l \<and> list_all not_space_at d \<and> list_all not_space_at t"
    using lne by blast
next
  assume "\<exists>l d t. s = l @ ''@'' @ d @ ''.'' @ t \<and> l \<noteq> [] \<and> d \<noteq> [] \<and> t \<noteq> []
        \<and> list_all not_space_at l \<and> list_all not_space_at d \<and> list_all not_space_at t"
  then obtain l d t where s: "s = l @ CHR ''@'' # (d @ CHR ''.'' # t)"
    and ne: "l \<noteq> []" "d \<noteq> []" "t \<noteq> []"
    and cl: "list_all not_space_at l" "list_all not_space_at d" "list_all not_space_at t"
    by auto
  have tw: "takeWhile not_space_at s = l"
    unfolding s using cl(1) not_space_at_at by (rule takeWhile_all_then_stop)
  have dw: "dropWhile not_space_at s = CHR ''@'' # (d @ CHR ''.'' # t)"
    unfolding s using cl(1) not_space_at_at by (rule dropWhile_all_then_stop)
  have all: "list_all not_space_at (d @ CHR ''.'' # t)"
    using cl by (simp add: not_space_at_dot)
  have "1 \<le> length d" "length d < length (d @ CHR ''.'' # t) - 1"
    using ne by (simp_all add: Suc_le_eq)
  then have "length d \<in> set [1 ..< length (d @ CHR ''.'' # t) - 1]"
    by simp
  moreover have "(d @ CHR ''.'' # t) ! length d = CHR ''.''" by simp
  ultimately have "list_ex (\<lambda>i. (d @ CHR ''.'' # t) ! i = CHR ''.'') [1 ..< length (d @ CHR ''.'' # t) - 1]"
    unfolding list_ex_iff by blast
  then show "emailRegex_test s"
    unfolding emailRegex_test_def Let_def tw dw using ne(1) all by simp
qed

lemma save_booking_bad_email:
  "\<not> emailRegex_test (toLowerCase (trim raw)) \<Longrightarrow>
   save_booking Event_exists eid raw
     = (if required_failures (new_booking eid raw) \<noteq> []
        then Inl (ValidationError (required_failures (new_booking eid raw)))
        else Inl InvalidEmail)"
  by (simp add: save_booking_def booking_pre_save_def new_booking_def set_email_def Let_def)

text \<open>
  Claim C8. The email of a Booking is trimmed and lowercased when the document is made,
  so \<open>USER@Example.com\<close> becomes \<open>user@example.com\<close>, and a booking that is stored
  holds the trimmed, lowercased email, which lowercasing again does not change. Unless
  that email matches the pattern, the save fails with a validation error: with the
  hook's email error when the reference is present and the email is not empty, and
  otherwise with the error of the schema's validators for the missing reference or the
  empty email, which run before the hook. The hook itself gives the email error whenever
  the email is missing, empty or does not match. The pattern matches exactly the strings
  made of a non-empty local part, an \<open>@\<close>, a non-empty domain, a dot and a non-empty last
  part, where no part holds white space or an \<open>@\<close>.
\<close>

theorem booking_email:
  "set_email ''USER@Example.com'' = ''user@example.com''
   \<and> email (new_booking eid raw) = Some (toLowerCase (trim raw))
   \<and> (save_booking Event_exists eid raw = Inr b \<longrightarrow>
        email b = Some (toLowerCase (trim raw)) \<and> emailRegex_test (toLowerCase (trim raw)))
   \<and> toLowerCase (toLowerCase (trim raw)) = toLowerCase (trim raw)
   \<and> (\<not> emailRegex_test (toLowerCase (trim raw)) \<and> eid \<noteq> None \<and> toLowerCase (trim raw) \<noteq> []
        \<longrightarrow> save_booking Event_exists eid raw = Inl InvalidEmail)
   \<and> (\<not> emailRegex_test (toLowerCase (trim raw)) \<longrightarrow>
        save_booking Event_exists eid raw = Inl InvalidEmail
        \<or> (\<exists>ps. ps \<noteq> [] \<and> set ps \<subseteq> {''eventId'', ''email''}
               \<and> save_booking Event_exists eid raw = Inl (ValidationError ps)))
   \<and> (\<not> email_ok (email bk) \<longrightarrow> booking_pre_save Event_exists bk = Some InvalidEmail)
   \<and> (emailRegex_test s \<longleftrightarrow>
        (\<exists>l d t. s = l @ ''@'' @ d @ ''.'' @ t \<and> l \<noteq> [] \<and> d \<noteq> [] \<and> t \<noteq> []
           \<and> list_all not_space_at l \<and> list_all not_space_at d \<and> list_all not_space_at t))"
proof -
  have "set_email ''USER@Example.com'' = ''user@example.com''" by code_simp
  moreover have "email (new_booking eid raw) = Some (toLowerCase (trim raw))"
    by (simp add: new_booking_def set_email_def)
  moreover have "save_booking Event_exists eid raw = Inr b \<longrightarrow>
        email b = Some (toLowerCase (trim raw)) \<and> emailRegex_test (toLowerCase (trim raw))"
    by (auto simp: save_booking_def booking_pre_save_def new_booking_def set_email_def Let_def
             split: option.splits if_splits)
  moreover have "\<not> emailRegex_test (toLowerCase (trim raw)) \<and> eid \<noteq> None
        \<and> toLowerCase (trim raw) \<noteq> []
        \<longrightarrow> save_booking Event_exists eid raw = Inl InvalidEmail"
    by (auto simp: save_booking_bad_email required_failures_def new_booking_def set_email_def
             split: option.splits)
  moreover have "\<not> emailRegex_test (toLowerCase (trim raw)) \<longrightarrow>
        save_booking Event_exists eid raw = Inl InvalidEmail
        \<or> (\<exists>ps. ps \<noteq> [] \<and> set ps \<subseteq> {''eventId'', ''email''}
               \<and> save_booking Event_exists eid raw = Inl (ValidationError ps))"
  proof
    assume bad: "\<not> emailRegex_test (toLowerCase (trim raw))"
    have "set (required_failures (new_booking eid raw)) \<subseteq> {''eventId'', ''email''}"
      by (auto simp: required_failures_def split: option.splits if_splits)
    then show "save_booking Event_exists eid raw = Inl InvalidEmail
        \<or> (\<exists>ps. ps \<noteq> [] \<and> set ps \<subseteq> {''eventId'', ''email''}
               \<and> save_booking Event_exists eid raw = Inl (ValidationError ps))"
      unfolding save_booking_bad_email[OF bad]
      by (cases "required_failures (new_booking eid raw) = []") auto
  qed
  moreover have "\<not> email_ok (email bk) \<longrightarrow> booking_pre_save Event_exists bk = Some InvalidEmail"
    by (simp add: booking_pre_save_def)
  ultimately show ?thesis
    using emailRegex_test_shape[of s] toLowerCase_idem[of "trim raw"] by blast
qed

text \<open>
  An address with capitals and spaces around it; a string without an \<open>@\<close>, saved with
  a reference to an event; and the same string saved with no reference, which the
  schema's validator stops before the hook.
\<close>

theorem booking_email_witness:
  "save_booking sample_events (Some 1) ''  USER@Example.com ''
     = Inr \<lparr>eventId = Some 1, email = Some ''user@example.com''\<rparr>
   \<and> emailRegex_test ''user@example.com''
   \<and> \<not> emailRegex_test (toLowerCase (trim ''user.example.com''))
   \<and> save_booking sample_events (Some 1) ''user.example.com'' = Inl InvalidEmail
   \<and> save_booking sample_events None ''user.example.com'' = Inl (ValidationError [''eventId''])
   \<and> booking_pre_save sample_events \<lparr>eventId = None, email = Some ''user.example.com''\<rparr>
       = Some InvalidEmail"
proof -
  have sv: "save_booking sample_events (Some 1) ''  USER@Example.com ''
     = Inr \<lparr>eventId = Some 1, email = Some ''user@example.com''\<rparr>"
    by code_simp
  have lt: "toLowerCase (trim ''  USER@Example.com '') = ''user@example.com''"
    by code_simp
  have bad: "\<not> emailRegex_test (toLowerCase (trim ''user.example.com''))"
    by code_simp
  have ne: "toLowerCase (trim ''user.example.com'') \<noteq> []"
    by code_simp
  have nohook: "save_booking sample_events None ''user.example.com''
      = Inl (ValidationError [''eventId''])"
    by code_simp
  have notok: "\<not> email_ok (email \<lparr>eventId = None, email = Some ''user.example.com''\<rparr>)"
    by code_simp
  note stored = booking_email[where Event_exists = sample_events and eid = "Some 1"
      and raw = "''  USER@Example.com ''"
      and b = "\<lparr>eventId = Some 1, email = Some ''user@example.com''\<rparr>",
      THEN conjunct2, THEN conjunct2, THEN conjunct1]
  note refused = booking_email[where Event_exists = sample_events and eid = "Some 1"
      and raw = "''user.example.com''",
      THEN conjunct2, THEN conjunct2, THEN conjunct2, THEN conjunct2, THEN conjunct1]
  note hook = booking_email[where Event_exists = sample_events
      and bk = "\<lparr>eventId = None, email = Some ''user.example.com''\<rparr>",
      THEN conjunct2, THEN conjunct2, THEN conjunct2, THEN conjunct2, THEN conjunct2,
      THEN conjunct2, THEN conjunct1]
  from stored sv have "emailRegex_test (toLowerCase (trim ''  USER@Example.com ''))"
    by blast
  then have m: "emailRegex_test ''user@example.com''" by (simp only: lt)
  have "\<not> emailRegex_test (toLowerCase (trim ''user.example.com''))
        \<and> Some (1::nat) \<noteq> None \<and> toLowerCase (trim ''user.example.com'') \<noteq> []"
    using bad ne by simp
  with refused
  have r: "save_booking sample_events (Some 1) ''user.example.com'' = Inl InvalidEmail"
    by (rule mp)
  from hook notok
  have h: "booking_pre_save sample_events \<lparr>eventId = None, email = Some ''user.example.com''\<rparr>
      = Some InvalidEmail"
    by (rule mp)
  from sv m bad r nohook h show ?thesis by (intro conjI)
qed

end
